theory Spec2Isabelle
  imports Complex_Main "HOL-Library.Word"
begin

section \<open>Conventions of the embedding\<close>

text \<open>
  The theory embeds the statistical core of the Strelka small-variant caller:
  the adaptive indel error model (\<^verbatim>\<open>IndelErrorModel.cpp\<close>), the continuous
  variant caller (\<^verbatim>\<open>starling_continuous_variant_caller.cpp\<close>) and the
  basecall error counts (\<^verbatim>\<open>BasecallErrorCounts.cpp\<close>).

  \<^item> \<^verbatim>\<open>unsigned\<close> is \<open>32 word\<close>, \<^verbatim>\<open>uint16_t\<close> is \<open>16 word\<close>,
    \<^verbatim>\<open>uint64_t\<close> is \<open>64 word\<close>: addition wraps as in C++.
  \<^item> \<^verbatim>\<open>double\<close> is idealised as \<open>real\<close>: rounding, infinities and NaN are not
    represented. Library functions whose value at a degenerate argument is not a real
    number (\<^verbatim>\<open>std::log\<close> at zero, boost's \<^verbatim>\<open>gamma_p\<close> and binomial density)
    are parameters of the definitions that call them.
  \<^item> \<^verbatim>\<open>assert\<close> is modelled as enabled: a failed assertion is the result
    \<open>Inl AssertionFailure\<close>. Dereferencing a past-the-end iterator is the result
    \<open>Inl UndefinedBehaviour\<close>.
\<close>

datatype error = AssertionFailure | UndefinedBehaviour

section \<open>Indel error model\<close>

subsection \<open>Rate lookup: \<^verbatim>\<open>IndelErrorModel::getIndelErrorRate\<close>\<close>

text \<open>
  \<^verbatim>\<open>IndelErrorRateType::index_t\<close>. The source names \<open>INSERT\<close> and \<open>DELETE\<close>; every other
  value of the enumeration (its declaration is in \<^verbatim>\<open>IndelErrorRateSet.hh\<close>, outside the
  sources) is a non-simple indel and is collected in \<open>OTHER\<close>.
\<close>

datatype index_t = INSERT | DELETE | OTHER

text \<open>
  An \<^verbatim>\<open>IndelErrorRateSet\<close> is used through \<^verbatim>\<open>getRate(patternSize, repeatCount, type)\<close>
  only; the table is that lookup function.
\<close>

type_synonym IndelErrorRateSet = "32 word \<Rightarrow> 32 word \<Rightarrow> index_t \<Rightarrow> real"

record IndelErrorModel =
  errorRates :: IndelErrorRateSet
  candidateErrorRates :: IndelErrorRateSet

record AlleleReportInfo =
  repeatUnitLength :: "32 word"
  refRepeatCount :: "32 word"
  indelRepeatCount :: "32 word"

text \<open>
  The two output parameters \<^verbatim>\<open>refToIndelErrorProb\<close> and \<^verbatim>\<open>indelToRefErrorProb\<close> are
  returned as a pair, in this order. \<open>getRateType\<close> classifies the indel key; it is declared
  outside the sources and is a parameter.
\<close>

definition getIndelErrorRate ::
  "('key \<Rightarrow> index_t) \<Rightarrow> IndelErrorModel \<Rightarrow> 'key \<Rightarrow> AlleleReportInfo \<Rightarrow> bool \<Rightarrow> real \<times> real"
where
  "getIndelErrorRate getRateType model indelKey indelReportInfo isCandidateRates =
    (let rates = (if isCandidateRates then candidateErrorRates model else errorRates model);
         indelType = getRateType indelKey;
         isSimpleIndel = (indelType = INSERT \<or> indelType = DELETE)
     in if \<not> isSimpleIndel then
          (let baselineInsertionErrorRate = rates 1 1 INSERT;
               baselineDeletionErrorRate = rates 1 1 DELETE;
               refToIndelErrorProb = max baselineInsertionErrorRate baselineDeletionErrorRate
           in (refToIndelErrorProb, refToIndelErrorProb))
        else
          (let repeatingPatternSize = max (repeatUnitLength indelReportInfo) 1;
               refPatternRepeatCount = max (refRepeatCount indelReportInfo) 1;
               indelPatternRepeatCount = max (indelRepeatCount indelReportInfo) 1;
               reverseIndelType = (if indelType = DELETE then INSERT else DELETE)
           in (rates repeatingPatternSize refPatternRepeatCount indelType,
               rates repeatingPatternSize indelPatternRepeatCount reverseIndelType)))"

text \<open>The vocabulary of the specification: a count floored to at least one, the opposite
  direction of a simple indel, and the table a lookup consults.\<close>

definition atLeastOne :: "32 word \<Rightarrow> 32 word" where
  "atLeastOne n = (if n = 0 then 1 else n)"

fun oppositeDirection :: "index_t \<Rightarrow> index_t" where
  "oppositeDirection INSERT = DELETE"
| "oppositeDirection DELETE = INSERT"
| "oppositeDirection OTHER = OTHER"

definition tableOf :: "IndelErrorModel \<Rightarrow> bool \<Rightarrow> IndelErrorRateSet" where
  "tableOf model isCandidateRates =
     (if isCandidateRates then candidateErrorRates model else errorRates model)"

lemma max_one_word: "max (n :: 32 word) 1 = atLeastOne n"
proof (cases "n = 0")
  case True
  then show ?thesis by (simp add: atLeastOne_def)
next
  case False
  then have "1 \<le> n" by (simp add: word_le_nat_alt unat_gt_0 Suc_leI)
  then show ?thesis using False by (simp add: atLeastOne_def max_def)
qed

text \<open>
  C4. A complex indel gets, in both directions, the larger of the table's insertion and
  deletion rates at pattern size 1 and repeat count 1. A simple indel gets, with the repeat
  unit length and both repeat counts floored to at least 1, the table's rate at the reference
  repeat count in the indel's own direction, and the table's rate at the indel repeat count
  in the opposite direction.
\<close>

theorem getIndelErrorRate_cases:
  "getIndelErrorRate getRateType model indelKey info isCandidateRates =
    (let t = tableOf model isCandidateRates; d = getRateType indelKey in
     if d = OTHER
     then (max (t 1 1 INSERT) (t 1 1 DELETE), max (t 1 1 INSERT) (t 1 1 DELETE))
     else (t (atLeastOne (repeatUnitLength info)) (atLeastOne (refRepeatCount info)) d,
           t (atLeastOne (repeatUnitLength info)) (atLeastOne (indelRepeatCount info))
             (oppositeDirection d)))"
  by (cases "getRateType indelKey")
     (simp_all add: getIndelErrorRate_def tableOf_def Let_def max_one_word)

theorem getIndelErrorRate_cases_witness:
  "getIndelErrorRate (\<lambda>k. k)
     \<lparr>errorRates = (\<lambda>p r d. if d = INSERT then real (unat r) else 10 * real (unat r)),
      candidateErrorRates = (\<lambda>p r d. 0)\<rparr>
     INSERT \<lparr>repeatUnitLength = 0, refRepeatCount = 3, indelRepeatCount = 0\<rparr> False = (3, 10)
   \<and> getIndelErrorRate (\<lambda>k. k)
     \<lparr>errorRates = (\<lambda>p r d. if d = INSERT then real (unat r) else 10 * real (unat r)),
      candidateErrorRates = (\<lambda>p r d. 0)\<rparr>
     OTHER \<lparr>repeatUnitLength = 0, refRepeatCount = 3, indelRepeatCount = 0\<rparr> False = (10, 10)"
  using
    getIndelErrorRate_cases [of "\<lambda>k. k"
      "\<lparr>errorRates = (\<lambda>p r d. if d = INSERT then real (unat r) else 10 * real (unat r)),
        candidateErrorRates = (\<lambda>p r d. 0)\<rparr>"
      INSERT "\<lparr>repeatUnitLength = 0, refRepeatCount = 3, indelRepeatCount = 0\<rparr>" False]
    getIndelErrorRate_cases [of "\<lambda>k. k"
      "\<lparr>errorRates = (\<lambda>p r d. if d = INSERT then real (unat r) else 10 * real (unat r)),
        candidateErrorRates = (\<lambda>p r d. 0)\<rparr>"
      OTHER "\<lparr>repeatUnitLength = 0, refRepeatCount = 3, indelRepeatCount = 0\<rparr>" False]
  by (simp add: tableOf_def atLeastOne_def)

subsection \<open>Adaptive interpolation: \<^verbatim>\<open>AdaptiveIndelErrorModel\<close>\<close>

record AdaptiveIndelErrorModelLogParams =
  logErrorRate :: real
  logNoisyLocusRate :: real

text \<open>
  The members of \<^verbatim>\<open>AdaptiveIndelErrorModel\<close>. \<^verbatim>\<open>errorRate\<close> reads the low anchor from
  \<^verbatim>\<open>_lowRepeatCount\<close>, whose declaration is outside the sources; the sources define the
  mutable static \<^verbatim>\<open>AdaptiveIndelErrorModel::lowRepeatCount = 2\<close>. The low anchor is
  therefore a field of the model state, and the constructor below gives it the value 2.
\<close>

record AdaptiveIndelErrorModel =
  repeatPatternSize :: "32 word"
  highRepeatCount :: "32 word"
  lowLogParams :: AdaptiveIndelErrorModelLogParams
  highLogParams :: AdaptiveIndelErrorModelLogParams
  lowRepeatCount :: "32 word"

definition AdaptiveIndelErrorModel_new ::
  "32 word \<Rightarrow> 32 word \<Rightarrow> AdaptiveIndelErrorModelLogParams \<Rightarrow>
   AdaptiveIndelErrorModelLogParams \<Rightarrow> AdaptiveIndelErrorModel"
where
  "AdaptiveIndelErrorModel_new repeatPatternSizeIn highRepeatCountIn lowLogParamsIn highLogParamsIn =
     \<lparr>repeatPatternSize = repeatPatternSizeIn, highRepeatCount = highRepeatCountIn,
      lowLogParams = lowLogParamsIn, highLogParams = highLogParamsIn, lowRepeatCount = 2\<rparr>"

definition linearFit :: "real \<Rightarrow> real \<Rightarrow> real \<Rightarrow> real \<Rightarrow> real \<Rightarrow> error + real" where
  "linearFit x x1 y1 x2 y2 =
     (if \<not> x1 \<noteq> x2 then Inl AssertionFailure
      else Inr (((y2 - y1) * x + (x2 * y1 - x1 * y2)) / (x2 - x1)))"

definition toDouble :: "32 word \<Rightarrow> real" where
  "toDouble n = real (unat n)"

definition errorRate :: "AdaptiveIndelErrorModel \<Rightarrow> 32 word \<Rightarrow> error + real" where
  "errorRate m repeatCount =
     (if \<not> repeatCount > 1 then Inl AssertionFailure
      else if repeatCount \<ge> highRepeatCount m then Inr (exp (logErrorRate (highLogParams m)))
      else (case linearFit (toDouble repeatCount)
                   (toDouble (lowRepeatCount m)) (logErrorRate (lowLogParams m))
                   (toDouble (highRepeatCount m)) (logErrorRate (highLogParams m)) of
              Inl e \<Rightarrow> Inl e
            | Inr y \<Rightarrow> Inr (exp y)))"

definition noisyLocusRate :: "AdaptiveIndelErrorModel \<Rightarrow> 32 word \<Rightarrow> error + real" where
  "noisyLocusRate m repeatCount =
     (if \<not> repeatCount > 1 then Inl AssertionFailure
      else if repeatCount \<ge> highRepeatCount m then Inr (exp (logNoisyLocusRate (highLogParams m)))
      else (case linearFit (toDouble repeatCount)
                   (toDouble (lowRepeatCount m)) (logNoisyLocusRate (lowLogParams m))
                   (toDouble (highRepeatCount m)) (logNoisyLocusRate (highLogParams m)) of
              Inl e \<Rightarrow> Inl e
            | Inr y \<Rightarrow> Inr (exp y)))"

text \<open>
  The specification's interpolant: the straight line through the anchor points
  \<open>(x1, y1)\<close> and \<open>(x2, y2)\<close>, in point-slope form, and the rate it gives at a repeat count
  for one pair of log parameters.
\<close>

definition lineThrough :: "real \<Rightarrow> real \<Rightarrow> real \<Rightarrow> real \<Rightarrow> real \<Rightarrow> real" where
  "lineThrough x1 y1 x2 y2 x = y1 + (y2 - y1) / (x2 - x1) * (x - x1)"

definition rampRate :: "32 word \<Rightarrow> real \<Rightarrow> 32 word \<Rightarrow> real \<Rightarrow> 32 word \<Rightarrow> error + real" where
  "rampRate low lowLog high highLog repeatCount =
     (if high \<le> repeatCount then Inr (exp highLog)
      else if low = high then Inl AssertionFailure
      else Inr (exp (lineThrough (toDouble low) lowLog (toDouble high) highLog
                       (toDouble repeatCount))))"

lemma linearFit_line:
  "x1 \<noteq> x2 \<Longrightarrow> linearFit x x1 y1 x2 y2 = Inr (lineThrough x1 y1 x2 y2 x)"
proof -
  assume ne: "x1 \<noteq> x2"
  then have d: "x2 - x1 \<noteq> 0" by simp
  have "((y2 - y1) * x + (x2 * y1 - x1 * y2)) / (x2 - x1)
        = y1 + (y2 - y1) / (x2 - x1) * (x - x1)"
    using d by (simp add: field_simps)
  then show ?thesis using ne by (simp add: linearFit_def lineThrough_def)
qed

lemma linearFit_equal_anchors: "linearFit x x1 y1 x1 y2 = Inl AssertionFailure"
  by (simp add: linearFit_def)

lemma toDouble_eq_iff: "toDouble a = toDouble b \<longleftrightarrow> a = b"
  unfolding toDouble_def by (metis of_nat_eq_iff word_unat_eq_iff)

lemma word_gt_one_iff: "(1 :: 32 word) < n \<longleftrightarrow> 2 \<le> n"
  by (simp add: word_less_nat_alt word_le_nat_alt) arith

lemma ramp_shape:
  assumes "2 \<le> repeatCount"
  shows "(if \<not> repeatCount > 1 then Inl AssertionFailure
      else if repeatCount \<ge> high then Inr (exp highLog)
      else (case linearFit (toDouble repeatCount) (toDouble low) lowLog (toDouble high) highLog of
              Inl e \<Rightarrow> Inl e
            | Inr y \<Rightarrow> Inr (exp y)))
     = rampRate low lowLog high highLog repeatCount"
proof (cases "low = high")
  case True
  then show ?thesis
    using assms by (simp add: word_gt_one_iff rampRate_def linearFit_equal_anchors)
next
  case False
  then have "toDouble low \<noteq> toDouble high" by (simp add: toDouble_eq_iff)
  then show ?thesis
    using assms False by (simp add: word_gt_one_iff rampRate_def linearFit_line)
qed

text \<open>
  C5. For a repeat count of at least 2, \<open>errorRate\<close> is \<open>exp\<close> of the high log rate at and
  beyond the switch point \<open>highRepeatCount\<close>; below it, it is \<open>exp\<close> of the straight line
  through the anchors \<open>(lowRepeatCount, lowLogErrorRate)\<close> and
  \<open>(highRepeatCount, highLogErrorRate)\<close> when the anchors' x-coordinates differ, and the
  fatal assertion of \<open>linearFit\<close> when they are equal. \<open>linearFit\<close> itself fails its
  assertion on equal x-coordinates whatever the other arguments, a constructed model has the
  low anchor at repeat count 2, and \<open>noisyLocusRate\<close> has the same shape over the noisy-locus
  log parameters.
\<close>

theorem errorRate_log_linear_ramp:
  assumes "2 \<le> repeatCount"
  shows "errorRate m repeatCount =
           rampRate (lowRepeatCount m) (logErrorRate (lowLogParams m))
             (highRepeatCount m) (logErrorRate (highLogParams m)) repeatCount
       \<and> noisyLocusRate m repeatCount =
           rampRate (lowRepeatCount m) (logNoisyLocusRate (lowLogParams m))
             (highRepeatCount m) (logNoisyLocusRate (highLogParams m)) repeatCount
       \<and> linearFit x x1 y1 x1 y2 = Inl AssertionFailure
       \<and> lowRepeatCount (AdaptiveIndelErrorModel_new ps hi lp hp) = 2"
  using ramp_shape [OF assms]
  by (simp add: errorRate_def noisyLocusRate_def linearFit_equal_anchors
      AdaptiveIndelErrorModel_new_def)

theorem errorRate_log_linear_ramp_witness:
  "(2 :: 32 word) \<le> 3
   \<and> errorRate (AdaptiveIndelErrorModel_new 1 4
         \<lparr>logErrorRate = 0, logNoisyLocusRate = 1\<rparr> \<lparr>logErrorRate = 2, logNoisyLocusRate = 5\<rparr>) 3
       = Inr (exp 1)
   \<and> noisyLocusRate (AdaptiveIndelErrorModel_new 1 4
         \<lparr>logErrorRate = 0, logNoisyLocusRate = 1\<rparr> \<lparr>logErrorRate = 2, logNoisyLocusRate = 5\<rparr>) 3
       = Inr (exp 3)
   \<and> errorRate \<lparr>repeatPatternSize = 1, highRepeatCount = 5,
         lowLogParams = \<lparr>logErrorRate = 0, logNoisyLocusRate = 1\<rparr>,
         highLogParams = \<lparr>logErrorRate = 2, logNoisyLocusRate = 5\<rparr>, lowRepeatCount = 5\<rparr> 3
       = Inl AssertionFailure"
proof -
  have h: "(2 :: 32 word) \<le> 3" by simp
  show ?thesis
    using h
      errorRate_log_linear_ramp [OF h, of "AdaptiveIndelErrorModel_new 1 4
         \<lparr>logErrorRate = 0, logNoisyLocusRate = 1\<rparr> \<lparr>logErrorRate = 2, logNoisyLocusRate = 5\<rparr>"]
      errorRate_log_linear_ramp [OF h, of "\<lparr>repeatPatternSize = 1, highRepeatCount = 5,
         lowLogParams = \<lparr>logErrorRate = 0, logNoisyLocusRate = 1\<rparr>,
         highLogParams = \<lparr>logErrorRate = 2, logNoisyLocusRate = 5\<rparr>, lowRepeatCount = 5\<rparr>"]
    by (simp add: rampRate_def lineThrough_def toDouble_def AdaptiveIndelErrorModel_new_def)
qed

section \<open>Continuous variant caller\<close>

subsection \<open>Numeric library functions\<close>

text \<open>
  The functions the caller takes from boost, the C++ standard library and
  \<^verbatim>\<open>blt_util/qscore.hh\<close>; none of them is in the sources, so they are parameters:
  \<^verbatim>\<open>boost::math::gamma_p(a, z)\<close>, the density
  \<^verbatim>\<open>boost::math::pdf(boost::math::binomial(n, p), k)\<close>, \<^verbatim>\<open>std::log\<close>,
  \<^verbatim>\<open>qphred_to_error_prob\<close> and \<^verbatim>\<open>error_prob_to_qphred\<close>.
\<close>

record numerics =
  gamma_p :: "real \<Rightarrow> real \<Rightarrow> real"
  binomial_pdf :: "real \<Rightarrow> real \<Rightarrow> real \<Rightarrow> real"
  std_log :: "real \<Rightarrow> real"
  qphred_to_error_prob :: "32 word \<Rightarrow> real"
  error_prob_to_qphred :: "real \<Rightarrow> int"

subsection \<open>Significance score: \<^verbatim>\<open>poisson_qscore\<close>\<close>

definition AssignPValue :: "numerics \<Rightarrow> 32 word \<Rightarrow> 32 word \<Rightarrow> 32 word \<Rightarrow> real" where
  "AssignPValue lib observedCallCount coverage estimatedBaseCallQuality =
     (if observedCallCount = 0 then 1
      else (let errorRate = qphred_to_error_prob lib estimatedBaseCallQuality
            in gamma_p lib (toDouble observedCallCount) (toDouble coverage * errorRate)))"

definition poisson_qscore :: "numerics \<Rightarrow> 32 word \<Rightarrow> 32 word \<Rightarrow> 32 word \<Rightarrow> int \<Rightarrow> int" where
  "poisson_qscore lib callCount coverage estimatedBaseCallQuality maxQScore =
     (let pValue = AssignPValue lib callCount coverage estimatedBaseCallQuality
      in if pValue \<le> 0 then maxQScore
         else min maxQScore (error_prob_to_qphred lib pValue))"

text \<open>
  Modelled from the spec: the numeric functions are outside the sources; these are the
  mathematical functions the specification names, over the reals. The regularized lower
  incomplete gamma function at a positive integer shape \<open>n\<close> has the closed form
  \<open>P(n, x) = 1 - exp (-x) * (\<Sum>k<n. x^k / k!)\<close>; the binomial density is
  \<open>(n choose k) * p^k * (1 - p)^(n - k)\<close>; a phred-scaled score is \<open>-10 * log10 p\<close> rounded
  to an integer, and the error probability of a quality \<open>q\<close> is \<open>10\<close> to the power \<open>-q / 10\<close>.
  The logarithm is \<open>ln\<close>, which is total in HOL and is not \<^verbatim>\<open>std::log\<close> at zero; the
  examples below apply it to positive numbers only.
\<close>

definition regularizedGammaP :: "nat \<Rightarrow> real \<Rightarrow> real" where
  "regularizedGammaP n x = 1 - exp (- x) * (\<Sum>k<n. x ^ k / fact k)"

definition idealNumerics :: numerics where
  "idealNumerics =
     \<lparr>gamma_p = (\<lambda>a x. regularizedGammaP (nat \<lfloor>a\<rfloor>) x),
      binomial_pdf = (\<lambda>n p k. real (nat \<lfloor>n\<rfloor> choose nat \<lfloor>k\<rfloor>) * p ^ nat \<lfloor>k\<rfloor>
                                 * (1 - p) ^ (nat \<lfloor>n\<rfloor> - nat \<lfloor>k\<rfloor>)),
      std_log = ln,
      qphred_to_error_prob = (\<lambda>q. 10 powr (- toDouble q / 10)),
      error_prob_to_qphred = (\<lambda>p. round (- 10 * log 10 p))\<rparr>"

lemma gammaP_bound:
  assumes "0 \<le> x"
  shows "regularizedGammaP n x \<le> x ^ n / fact n"
proof -
  obtain t where t: "\<bar>t\<bar> \<le> \<bar>x\<bar>" and e: "exp x = (\<Sum>m<n. x ^ m / fact m) + exp t / fact n * x ^ n"
    using Maclaurin_exp_le [of x n] by blast
  have tx: "t \<le> x" using t assms by linarith
  have "regularizedGammaP n x = 1 - exp (- x) * (exp x - exp t / fact n * x ^ n)"
    unfolding regularizedGammaP_def using e by simp
  also have "\<dots> = exp (t - x) * (x ^ n / fact n)"
    by (simp add: algebra_simps exp_diff exp_minus field_simps)
  also have "\<dots> \<le> 1 * (x ^ n / fact n)"
    by (rule mult_right_mono) (use tx assms in auto)
  finally show ?thesis by simp
qed

lemma poisson_qscore_example: "poisson_qscore idealNumerics 30 30 30 40 = 40"
proof -
  let ?x = "(3::real) / 100"
  have q: "qphred_to_error_prob idealNumerics 30 = 1 / 1000"
    by (simp add: idealNumerics_def toDouble_def powr_minus divide_simps)
  have p: "AssignPValue idealNumerics 30 30 30 = regularizedGammaP 30 ?x"
    by (simp add: AssignPValue_def q Let_def toDouble_def) (simp add: idealNumerics_def)
  have "regularizedGammaP 30 ?x \<le> ?x ^ 30 / fact 30" by (rule gammaP_bound) simp
  also have "\<dots> \<le> ?x ^ 3 / 1"
    by (rule frac_le) (auto intro: power_decreasing)
  also have "\<dots> \<le> 1 / 10 ^ 4" by (simp add: power3_eq_cube)
  finally have b: "regularizedGammaP 30 ?x \<le> 1 / 10 ^ 4" .
  show ?thesis
  proof (cases "regularizedGammaP 30 ?x \<le> 0")
    case True
    then show ?thesis by (simp add: poisson_qscore_def p)
  next
    case False
    then have pos: "0 < regularizedGammaP 30 ?x" by simp
    have "log 10 (regularizedGammaP 30 ?x) \<le> log 10 (1 / 10 ^ 4)"
      using pos b by (simp del: log_divide_pos)
    also have "\<dots> = log 10 (10 powr (- 4))" by (simp add: powr_minus_divide)
    also have "\<dots> = - 4" by simp
    finally have "40 \<le> - 10 * log 10 (regularizedGammaP 30 ?x)" by simp
    then have "40 \<le> round (- 10 * log 10 (regularizedGammaP 30 ?x))"
      by (metis round_mono round_of_int of_int_numeral)
    then show ?thesis using False
      by (simp add: poisson_qscore_def p Let_def) (simp add: idealNumerics_def)
  qed
qed


text \<open>
  C2. The p-value is \<open>1\<close> when the observed count is \<open>0\<close> and otherwise the regularized lower
  incomplete gamma function at \<open>(n, c * errorProb q)\<close>; the score is the cap \<open>m\<close> when the
  p-value is at most \<open>0\<close> and otherwise the smaller of \<open>m\<close> and the phred score of the
  p-value. For \<open>n = 0\<close> the score is the smaller of \<open>m\<close> and the phred score of \<open>1\<close>, which
  is \<open>0\<close> for the mathematical phred score; the score never exceeds \<open>m\<close>; and with the
  mathematical functions \<open>poisson_qscore 30 30 30 40 = 40\<close>.
\<close>

theorem poisson_qscore_spec:
  "poisson_qscore lib n c q m =
     (let p = (if n = 0 then 1 else gamma_p lib (toDouble n) (toDouble c * qphred_to_error_prob lib q))
      in if p \<le> 0 then m else min m (error_prob_to_qphred lib p))
   \<and> poisson_qscore lib 0 c q m = min m (error_prob_to_qphred lib 1)
   \<and> poisson_qscore lib n c q m \<le> m
   \<and> poisson_qscore idealNumerics 0 c q m = min m 0
   \<and> poisson_qscore idealNumerics 30 30 30 40 = 40"
proof -
  have "poisson_qscore idealNumerics 0 c q m = min m 0"
    by (simp add: poisson_qscore_def AssignPValue_def Let_def) (simp add: idealNumerics_def)
  then show ?thesis
    using poisson_qscore_example by (simp add: poisson_qscore_def AssignPValue_def Let_def)
qed

theorem poisson_qscore_spec_witness:
  "poisson_qscore idealNumerics 0 30 30 40 = 0
   \<and> poisson_qscore idealNumerics 30 30 30 40 = 40
   \<and> poisson_qscore (idealNumerics\<lparr>gamma_p := (\<lambda>a x. 0)\<rparr>) 30 30 30 40 = 40"
  using poisson_qscore_spec [of idealNumerics 0 30 30 40]
    poisson_qscore_spec [of "idealNumerics\<lparr>gamma_p := (\<lambda>a x. 0)\<rparr>" 30 30 30 40]
  by simp

subsection \<open>Strand bias: \<^verbatim>\<open>strand_bias\<close>\<close>

definition Likelihood :: "numerics \<Rightarrow> 32 word \<Rightarrow> 32 word \<Rightarrow> real \<Rightarrow> real" where
  "Likelihood lib coverage observedCallCount expectedFrequency =
     (if observedCallCount = 0 then 0
      else binomial_pdf lib (toDouble coverage) expectedFrequency (toDouble observedCallCount))"

definition strand_bias ::
  "numerics \<Rightarrow> 32 word \<Rightarrow> 32 word \<Rightarrow> 32 word \<Rightarrow> 32 word \<Rightarrow> real \<Rightarrow> real"
where
  "strand_bias lib fwdAlt revAlt fwdOther revOther noise =
     (let expectedVf = toDouble (fwdAlt + revAlt)
                         / (toDouble fwdOther + toDouble revOther + toDouble fwdAlt + toDouble revAlt);
          fwd = std_log lib (Likelihood lib (fwdAlt + fwdOther) fwdAlt expectedVf);
          rev = std_log lib (Likelihood lib (revAlt + revOther) revAlt expectedVf);
          both = std_log lib (Likelihood lib (fwdAlt + fwdOther + revAlt + revOther)
                                (fwdAlt + revAlt) expectedVf)
      in max fwd rev - both)"

text \<open>
  The specification's statistic, over the exact counts: the pooled alt fraction, the
  binomial likelihood that is \<open>0\<close> at an observed count of \<open>0\<close>, and the excess of the
  better single-strand log likelihood over the combined one.
\<close>

definition pooledAltFraction :: "nat \<Rightarrow> nat \<Rightarrow> nat \<Rightarrow> nat \<Rightarrow> real" where
  "pooledAltFraction fwdAlt revAlt fwdOther revOther =
     real (fwdAlt + revAlt) / real (fwdAlt + revAlt + fwdOther + revOther)"

definition binomialLikelihood :: "numerics \<Rightarrow> nat \<Rightarrow> nat \<Rightarrow> real \<Rightarrow> real" where
  "binomialLikelihood lib trials successes frequency =
     (if successes = 0 then 0 else binomial_pdf lib (real trials) frequency (real successes))"

definition strandBiasStatistic :: "numerics \<Rightarrow> nat \<Rightarrow> nat \<Rightarrow> nat \<Rightarrow> nat \<Rightarrow> real" where
  "strandBiasStatistic lib fwdAlt revAlt fwdOther revOther =
     (let f = pooledAltFraction fwdAlt revAlt fwdOther revOther;
          L_fwd = binomialLikelihood lib (fwdAlt + fwdOther) fwdAlt f;
          L_rev = binomialLikelihood lib (revAlt + revOther) revAlt f;
          L_both = binomialLikelihood lib (fwdAlt + revAlt + fwdOther + revOther) (fwdAlt + revAlt) f
      in max (std_log lib L_fwd) (std_log lib L_rev) - std_log lib L_both)"

lemma unat_add_small:
  "unat (a :: 32 word) + unat b < 2 ^ 32 \<Longrightarrow> unat (a + b) = unat a + unat b"
  using unat_add_lem [of a b] by simp

lemma Likelihood_binomial:
  "Likelihood lib coverage k f = binomialLikelihood lib (unat coverage) (unat k) f"
  by (simp add: Likelihood_def binomialLikelihood_def toDouble_def unat_eq_0)

lemma strand_bias_no_overflow:
  assumes "unat fwdAlt + unat revAlt + unat fwdOther + unat revOther < 2 ^ 32"
  shows "strand_bias lib fwdAlt revAlt fwdOther revOther noise =
         strandBiasStatistic lib (unat fwdAlt) (unat revAlt) (unat fwdOther) (unat revOther)"
proof -
  have a: "unat (fwdAlt + revAlt) = unat fwdAlt + unat revAlt"
    using assms by (intro unat_add_small) simp
  have f: "unat (fwdAlt + fwdOther) = unat fwdAlt + unat fwdOther"
    using assms by (intro unat_add_small) simp
  have r: "unat (revAlt + revOther) = unat revAlt + unat revOther"
    using assms by (intro unat_add_small) simp
  have f2: "unat (fwdAlt + fwdOther + revAlt) = unat fwdAlt + unat fwdOther + unat revAlt"
    using assms f by (subst unat_add_small) simp_all
  have t: "unat (fwdAlt + fwdOther + revAlt + revOther)
           = unat fwdAlt + unat revAlt + unat fwdOther + unat revOther"
    using assms f2 by (subst unat_add_small) simp_all
  have vf: "toDouble (fwdAlt + revAlt)
              / (toDouble fwdOther + toDouble revOther + toDouble fwdAlt + toDouble revAlt)
            = pooledAltFraction (unat fwdAlt) (unat revAlt) (unat fwdOther) (unat revOther)"
    unfolding toDouble_def pooledAltFraction_def a by (simp add: add_ac)
  show ?thesis
    unfolding strand_bias_def strandBiasStatistic_def Let_def vf Likelihood_binomial a f r t
    by simp
qed

text \<open>
  C3. \<open>strand_bias\<close> is \<open>max (log L_fwd) (log L_rev) - log L_both\<close> at the pooled alt
  fraction, for all counts whose total fits an \<^verbatim>\<open>unsigned\<close> (beyond that the sums
  \<^verbatim>\<open>fwdAlt+revAlt\<close> and the trial counts wrap, while the denominator is added in
  \<^verbatim>\<open>double\<close>); and its value does not depend on the noise argument.
\<close>

theorem strand_bias_spec:
  "(unat fwdAlt + unat revAlt + unat fwdOther + unat revOther < 2 ^ 32 \<longrightarrow>
      strand_bias lib fwdAlt revAlt fwdOther revOther noise =
      strandBiasStatistic lib (unat fwdAlt) (unat revAlt) (unat fwdOther) (unat revOther))
   \<and> strand_bias lib fwdAlt revAlt fwdOther revOther noise =
     strand_bias lib fwdAlt revAlt fwdOther revOther noise'"
  using strand_bias_no_overflow by (simp add: strand_bias_def)

theorem strand_bias_spec_witness:
  "unat (1 :: 32 word) + unat (1 :: 32 word) + unat (1 :: 32 word) + unat (1 :: 32 word) < 2 ^ 32
   \<and> strand_bias idealNumerics 1 1 1 1 7 = ln (1 / 2) - ln (3 / 8)
   \<and> strand_bias idealNumerics 1 1 1 1 7 = strand_bias idealNumerics 1 1 1 1 0"
  using strand_bias_spec [of 1 1 1 1 idealNumerics 7 0]
  apply (simp add: strandBiasStatistic_def pooledAltFraction_def binomialLikelihood_def Let_def)
  apply (simp add: idealNumerics_def)
  apply (simp add: eval_nat_numeral binomial_Suc_Suc)
  done

subsection \<open>SNP calling: \<^verbatim>\<open>position_snp_call_continuous\<close>\<close>

text \<open>
  The fields of the option, pileup, allele and locus records that the caller reads or
  writes; their declarations are outside the sources. The members that the site and the
  indel records have in common (\<open>altAlleles\<close>, \<open>samples\<close>, \<open>anyVariantAlleleQuality\<close>;
  the depths and \<open>gqx\<close> of an allele) are the fields of a base record that both extend.
  \<^verbatim>\<open>alleleObservationCounts\<close> is the locus' per-base count accessor, \<^verbatim>\<open>ref\<close> the reference base character, mapped to its base
  id by \<^verbatim>\<open>base_to_id\<close> (a parameter), and \<open>samples\<close> the per-sample records reached
  through \<^verbatim>\<open>getSample\<close>.
\<close>

record starling_base_options =
  min_het_vf :: real
  min_qscore :: int
  noise_floor :: real

record base_call =
  is_fwd_strand :: bool
  base_id :: "8 word"

record snp_pos_info =
  calls :: "base_call list"

record LocusSampleInfo =
  gq :: int

record GermlineContinuousAlleleInfo =
  totalDepth :: "32 word"
  alleleDepth :: "32 word"
  gqx :: int

record GermlineContinuousSiteAlleleInfo = GermlineContinuousAlleleInfo +
  base :: "8 word"
  strandBias :: real

record 'allele GermlineContinuousLocusInfo =
  altAlleles :: "'allele list"
  samples :: "LocusSampleInfo list"
  anyVariantAlleleQuality :: int

record GermlineContinuousSiteLocusInfo =
  "GermlineContinuousSiteAlleleInfo GermlineContinuousLocusInfo" +
  spanning_deletions :: "32 word"
  alleleObservationCounts :: "8 word \<Rightarrow> 32 word"
  ref :: char
  isForcedOutput :: bool
  is_snp :: bool

text \<open>
  Modelled from the spec: \<^verbatim>\<open>N_BASE\<close> is declared in \<^verbatim>\<open>blt_util/seq_util.hh\<close>, outside
  the sources; the specification iterates over "every possible base", the four nucleotides.
\<close>

definition N_BASE :: nat where
  "N_BASE = 4"

text \<open>
  Modelled from the spec: \<^verbatim>\<open>safeFrac\<close> is declared in \<^verbatim>\<open>blt_util/math_util.hh\<close>,
  outside the sources; the specification's variant fraction is the allele count divided by
  the total depth. (At a zero denominator the quotient of reals is \<open>0\<close> in HOL.)
\<close>

definition safeFrac :: "32 word \<Rightarrow> 32 word \<Rightarrow> real" where
  "safeFrac num denom = toDouble num / toDouble denom"

text \<open>
  The constructor call \<^verbatim>\<open>allele(totalDepth, count, base_id)\<close>. The initial values of
  \<^verbatim>\<open>gqx\<close> and \<^verbatim>\<open>strand_bias\<close> come from the class declaration, outside the sources;
  no statement below depends on them.
\<close>

definition newSiteAllele :: "32 word \<Rightarrow> 32 word \<Rightarrow> 8 word \<Rightarrow> GermlineContinuousSiteAlleleInfo" where
  "newSiteAllele depth count b =
     \<lparr>totalDepth = depth, alleleDepth = count, gqx = 0, base = b, strandBias = 0\<rparr>"

text \<open>The strand tally over \<^verbatim>\<open>good_pi.calls\<close> inside the lambda.\<close>

definition countStrands :: "base_call list \<Rightarrow> 8 word \<Rightarrow> 32 word \<times> 32 word \<times> 32 word \<times> 32 word" where
  "countStrands cs b =
     fold (\<lambda>bc (fwdAlt, revAlt, fwdOther, revOther).
             if is_fwd_strand bc then
               (if base_id bc = b then (fwdAlt + 1, revAlt, fwdOther, revOther)
                else (fwdAlt, revAlt, fwdOther + 1, revOther))
             else if base_id bc = b then (fwdAlt, revAlt + 1, fwdOther, revOther)
             else (fwdAlt, revAlt, fwdOther, revOther + 1))
       cs (0, 0, 0, 0)"

text \<open>
  The lambda \<^verbatim>\<open>generateAlleleInfo\<close>: \<open>generateAlleleInfo_sample\<close> is one iteration of
  its loop over the sample indices, on the state \<open>(isOutputAllele, allele, locusInfo)\<close>.
\<close>

definition generateAlleleInfo_sample ::
  "numerics \<Rightarrow> starling_base_options \<Rightarrow> snp_pos_info \<Rightarrow> 32 word \<Rightarrow> 8 word \<Rightarrow> 8 word \<Rightarrow> bool \<Rightarrow> nat \<Rightarrow>
   bool \<times> GermlineContinuousSiteAlleleInfo \<times> GermlineContinuousSiteLocusInfo \<Rightarrow>
   bool \<times> GermlineContinuousSiteAlleleInfo \<times> GermlineContinuousSiteLocusInfo"
where
  "generateAlleleInfo_sample lib opt good_pi depth ref_base_id b isForced sampleIndex st =
     (case st of (isOutputAllele, allele, locusInfo) \<Rightarrow>
       (let vf = safeFrac (alleleObservationCounts locusInfo b) depth;
            (isOutputAllele1, allele1, locusInfo1) =
              (if vf > min_het_vf opt \<or> isForced then
                 (let q = poisson_qscore lib (alleleObservationCounts locusInfo b) depth
                            (word_of_int (min_qscore opt)) 40;
                      locusInfo2 = locusInfo\<lparr>samples :=
                        (samples locusInfo)[sampleIndex := (samples locusInfo ! sampleIndex)\<lparr>gq := q\<rparr>]\<rparr>;
                      allele2 = allele\<lparr>gqx := q\<rparr>;
                      (allele3, locusInfo3) =
                        (if ref_base_id \<noteq> b then
                           (case countStrands (calls good_pi) b of
                              (fwdAlt, revAlt, fwdOther, revOther) \<Rightarrow>
                                (allele2\<lparr>strandBias :=
                                   strand_bias lib fwdAlt revAlt fwdOther revOther (noise_floor opt)\<rparr>,
                                 locusInfo2\<lparr>is_snp := (is_snp locusInfo2 \<or> vf > min_het_vf opt)\<rparr>))
                         else (allele2, locusInfo2))
                  in (True, allele3, locusInfo3))
               else (isOutputAllele, allele, locusInfo))
        in (isOutputAllele1, allele1,
            if isOutputAllele1 then locusInfo1\<lparr>altAlleles := altAlleles locusInfo1 @ [allele1]\<rparr>
            else locusInfo1)))"

definition generateAlleleInfo ::
  "numerics \<Rightarrow> starling_base_options \<Rightarrow> snp_pos_info \<Rightarrow> 32 word \<Rightarrow> 8 word \<Rightarrow> 8 word \<Rightarrow> bool \<Rightarrow>
   GermlineContinuousSiteLocusInfo \<Rightarrow> GermlineContinuousSiteLocusInfo"
where
  "generateAlleleInfo lib opt good_pi depth ref_base_id b isForced locusInfo =
     snd (snd (fold (generateAlleleInfo_sample lib opt good_pi depth ref_base_id b isForced)
                 [0 ..< length (samples locusInfo)]
                 (False, newSiteAllele depth (alleleObservationCounts locusInfo b) b, locusInfo)))"

text \<open>
  The body of \<^verbatim>\<open>position_snp_call_continuous\<close>: the total depth, the loop over the
  base ids (\<open>callAllBases\<close>), the forced reference call when that loop left no allele
  record, and the locus quality.
\<close>

definition siteTotalDepth :: "GermlineContinuousSiteLocusInfo \<Rightarrow> 32 word" where
  "siteTotalDepth locusInfo =
     fold (\<lambda>b depth. depth + alleleObservationCounts locusInfo (of_nat b)) [0 ..< N_BASE]
       (spanning_deletions locusInfo)"

definition callAllBases ::
  "numerics \<Rightarrow> (char \<Rightarrow> 8 word) \<Rightarrow> starling_base_options \<Rightarrow> snp_pos_info \<Rightarrow>
   GermlineContinuousSiteLocusInfo \<Rightarrow> GermlineContinuousSiteLocusInfo"
where
  "callAllBases lib base_to_id opt good_pi locusInfo =
     fold (\<lambda>b l. generateAlleleInfo lib opt good_pi (siteTotalDepth locusInfo)
                    (base_to_id (ref locusInfo)) (of_nat b) (isForcedOutput l) l)
       [0 ..< N_BASE] locusInfo"

definition maxSampleQuality :: "LocusSampleInfo list \<Rightarrow> int" where
  "maxSampleQuality ss = fold (\<lambda>sampleInfo q. max q (gq sampleInfo)) ss 0"

definition position_snp_call_continuous ::
  "numerics \<Rightarrow> (char \<Rightarrow> 8 word) \<Rightarrow> starling_base_options \<Rightarrow> snp_pos_info \<Rightarrow>
   GermlineContinuousSiteLocusInfo \<Rightarrow> GermlineContinuousSiteLocusInfo"
where
  "position_snp_call_continuous lib base_to_id opt good_pi locusInfo =
     (let l1 = callAllBases lib base_to_id opt good_pi locusInfo;
          l2 = (if altAlleles l1 = [] then
                  generateAlleleInfo lib opt good_pi (siteTotalDepth locusInfo)
                    (base_to_id (ref locusInfo)) (base_to_id (ref locusInfo)) True l1
                else l1)
      in l2\<lparr>anyVariantAlleleQuality := maxSampleQuality (samples l2)\<rparr>)"

text \<open>
  The scenario of the specification: the reference base, of id \<open>refId\<close>, with 90
  observations and one alternate base, of id \<open>altId\<close>, with 10. The scenario as a
  predicate on loci: the two ids are distinct base ids, and the locus has one sample, no
  allele record yet, is not flagged, its output is not forced and it has no spanning
  deletion. \<open>siteLocus\<close> is such a locus, with reference \<^verbatim>\<open>T\<close>.
\<close>

definition scenarioCounts :: "8 word \<Rightarrow> 8 word \<Rightarrow> 8 word \<Rightarrow> 32 word" where
  "scenarioCounts refId altId b = (if b = refId then 90 else if b = altId then 10 else 0)"

definition scenarioLocus ::
  "(char \<Rightarrow> 8 word) \<Rightarrow> 8 word \<Rightarrow> 8 word \<Rightarrow> GermlineContinuousSiteLocusInfo \<Rightarrow> bool" where
  "scenarioLocus base_to_id refId altId l \<longleftrightarrow>
     base_to_id (ref l) = refId \<and> unat refId < N_BASE \<and> unat altId < N_BASE \<and> refId \<noteq> altId \<and>
     alleleObservationCounts l = scenarioCounts refId altId \<and>
     spanning_deletions l = 0 \<and> length (samples l) = 1 \<and> altAlleles l = [] \<and>
     \<not> is_snp l \<and> \<not> isForcedOutput l"

definition siteLocus :: GermlineContinuousSiteLocusInfo where
  "siteLocus =
     \<lparr>altAlleles = [], samples = [\<lparr>gq = 0\<rparr>], anyVariantAlleleQuality = 0,
      spanning_deletions = 0, alleleObservationCounts = scenarioCounts 3 1, ref = CHR ''T'',
      isForcedOutput = False, is_snp = False\<rparr>"

lemma upt4: "[0 ..< 4] = [0, 1, 2, 3]"
  by (simp add: upt_rec)

lemma base_ids:
  assumes "unat (b :: 8 word) < N_BASE"
  shows "b = 0 \<or> b = 1 \<or> b = 2 \<or> b = 3"
proof -
  have "unat b = 0 \<or> unat b = 1 \<or> unat b = 2 \<or> unat b = 3"
    using assms by (simp add: N_BASE_def) arith
  then show ?thesis
    using word_unat_eq_iff [of b 0] word_unat_eq_iff [of b 1] word_unat_eq_iff [of b 2]
      word_unat_eq_iff [of b 3]
    by auto
qed

lemma scenario_ids:
  assumes "scenarioLocus base_to_id refId altId l"
  shows "(refId = 0 \<or> refId = 1 \<or> refId = 2 \<or> refId = 3)
       \<and> (altId = 0 \<or> altId = 1 \<or> altId = 2 \<or> altId = 3) \<and> refId \<noteq> altId"
  using assms base_ids [of refId] base_ids [of altId] by (simp add: scenarioLocus_def)

lemma depth100:
  assumes "scenarioLocus base_to_id refId altId l"
  shows "siteTotalDepth l = 100"
proof -
  have c: "alleleObservationCounts l = scenarioCounts refId altId" "spanning_deletions l = 0"
    using assms by (simp_all add: scenarioLocus_def)
  show ?thesis
    using scenario_ids [OF assms]
    by (elim conjE disjE; simp add: siteTotalDepth_def N_BASE_def upt4 scenarioCounts_def c)
qed

text \<open>
  One call of \<^verbatim>\<open>generateAlleleInfo\<close> on a single-sample locus: it leaves the locus as
  it is when the base does not pass the threshold and is not forced, and otherwise pushes
  the allele record and assigns the sample quality (for a non-reference base it also sets
  the strand bias and the SNP flag).
\<close>

lemma single_sample: "length (samples l) = 1 \<Longrightarrow> samples l = [hd (samples l)]"
  by (cases "samples l") simp_all

lemma generateAlleleInfo_keep:
  assumes "length (samples l) = 1"
    and "\<not> min_het_vf opt < safeFrac (alleleObservationCounts l b) depth"
  shows "generateAlleleInfo lib opt good_pi depth r b False l = l"
  using assms by (simp add: generateAlleleInfo_def generateAlleleInfo_sample_def Let_def)

lemma generateAlleleInfo_reference:
  assumes "length (samples l) = 1"
    and "min_het_vf opt < safeFrac (alleleObservationCounts l r) depth \<or> isForced"
  shows "generateAlleleInfo lib opt good_pi depth r r isForced l =
           l\<lparr>altAlleles := altAlleles l @
               [\<lparr>totalDepth = depth, alleleDepth = alleleObservationCounts l r,
                 gqx = poisson_qscore lib (alleleObservationCounts l r) depth
                         (word_of_int (min_qscore opt)) 40,
                 base = r, strandBias = 0\<rparr>],
             samples := [(hd (samples l))\<lparr>gq := poisson_qscore lib (alleleObservationCounts l r) depth
                         (word_of_int (min_qscore opt)) 40\<rparr>]\<rparr>"
proof -
  obtain s where s: "samples l = [s]" using single_sample [OF assms(1)] by blast
  show ?thesis
    using assms(2)
    by (simp add: generateAlleleInfo_def generateAlleleInfo_sample_def Let_def newSiteAllele_def s)
qed

lemma generateAlleleInfo_alternate:
  assumes "length (samples l) = 1"
    and "min_het_vf opt < safeFrac (alleleObservationCounts l b) depth"
    and "b \<noteq> r"
  shows "generateAlleleInfo lib opt good_pi depth r b isForced l =
           l\<lparr>altAlleles := altAlleles l @
               [\<lparr>totalDepth = depth, alleleDepth = alleleObservationCounts l b,
                 gqx = poisson_qscore lib (alleleObservationCounts l b) depth
                         (word_of_int (min_qscore opt)) 40,
                 base = b,
                 strandBias = (case countStrands (calls good_pi) b of
                                 (fwdAlt, revAlt, fwdOther, revOther) \<Rightarrow>
                                   strand_bias lib fwdAlt revAlt fwdOther revOther (noise_floor opt))\<rparr>],
             samples := [(hd (samples l))\<lparr>gq := poisson_qscore lib (alleleObservationCounts l b) depth
                         (word_of_int (min_qscore opt)) 40\<rparr>],
             is_snp := True\<rparr>"
proof -
  obtain s where s: "samples l = [s]" using single_sample [OF assms(1)] by blast
  show ?thesis
    using assms(2,3)
    by (simp add: generateAlleleInfo_def generateAlleleInfo_sample_def Let_def newSiteAllele_def s
          split: prod.splits)
qed

lemmas scenario_simps =
  generateAlleleInfo_keep generateAlleleInfo_reference generateAlleleInfo_alternate
  safeFrac_def toDouble_def scenarioCounts_def

text \<open>The loop over the base ids at the three thresholds, and the forced reference call.\<close>

lemma callAllBases_low:
  assumes "scenarioLocus base_to_id refId altId l" "min_het_vf opt = 5 / 100"
  shows "map base (altAlleles (callAllBases lib base_to_id opt good_pi l))
           = (if refId < altId then [refId, altId] else [altId, refId])
       \<and> map alleleDepth (altAlleles (callAllBases lib base_to_id opt good_pi l))
           = (if refId < altId then [90, 10] else [10, 90])
       \<and> map totalDepth (altAlleles (callAllBases lib base_to_id opt good_pi l)) = [100, 100]
       \<and> map gqx (altAlleles (callAllBases lib base_to_id opt good_pi l))
           = (if refId < altId
              then [poisson_qscore lib 90 100 (word_of_int (min_qscore opt)) 40,
                    poisson_qscore lib 10 100 (word_of_int (min_qscore opt)) 40]
              else [poisson_qscore lib 10 100 (word_of_int (min_qscore opt)) 40,
                    poisson_qscore lib 90 100 (word_of_int (min_qscore opt)) 40])
       \<and> is_snp (callAllBases lib base_to_id opt good_pi l)
       \<and> map gq (samples (callAllBases lib base_to_id opt good_pi l))
           = [if refId < altId then poisson_qscore lib 10 100 (word_of_int (min_qscore opt)) 40
              else poisson_qscore lib 90 100 (word_of_int (min_qscore opt)) 40]"
proof -
  have d: "siteTotalDepth l = 100" by (rule depth100 [OF assms(1)])
  have f: "base_to_id (ref l) = refId" "alleleObservationCounts l = scenarioCounts refId altId"
    "altAlleles l = []" "\<not> is_snp l" "\<not> isForcedOutput l" "length (samples l) = 1"
    using assms(1) by (simp_all add: scenarioLocus_def)
  show ?thesis
    using scenario_ids [OF assms(1)]
    by (elim conjE disjE;
        simp add: callAllBases_def d N_BASE_def upt4 f assms(2) scenario_simps)
qed

lemma callAllBases_mid:
  assumes "scenarioLocus base_to_id refId altId l" "min_het_vf opt = 2 / 10"
  shows "callAllBases lib base_to_id opt good_pi l
           = generateAlleleInfo lib opt good_pi 100 refId refId True l"
proof -
  have d: "siteTotalDepth l = 100" by (rule depth100 [OF assms(1)])
  have f: "base_to_id (ref l) = refId" "alleleObservationCounts l = scenarioCounts refId altId"
    "altAlleles l = []" "\<not> is_snp l" "\<not> isForcedOutput l" "length (samples l) = 1"
    using assms(1) by (simp_all add: scenarioLocus_def)
  show ?thesis
    using scenario_ids [OF assms(1)]
    by (elim conjE disjE;
        simp add: callAllBases_def d N_BASE_def upt4 f assms(2) scenario_simps)
qed

lemma callAllBases_high:
  assumes "scenarioLocus base_to_id refId altId l" "min_het_vf opt = 95 / 100"
  shows "callAllBases lib base_to_id opt good_pi l = l"
proof -
  have d: "siteTotalDepth l = 100" by (rule depth100 [OF assms(1)])
  have f: "base_to_id (ref l) = refId" "alleleObservationCounts l = scenarioCounts refId altId"
    "altAlleles l = []" "\<not> is_snp l" "\<not> isForcedOutput l" "length (samples l) = 1"
    using assms(1) by (simp_all add: scenarioLocus_def)
  show ?thesis
    using scenario_ids [OF assms(1)]
    by (elim conjE disjE;
        simp add: callAllBases_def d N_BASE_def upt4 f assms(2) scenario_simps)
qed

lemma forced_reference:
  assumes "scenarioLocus base_to_id refId altId l"
  shows "map base (altAlleles (generateAlleleInfo lib opt good_pi 100 refId refId True l)) = [refId]
     \<and> map alleleDepth (altAlleles (generateAlleleInfo lib opt good_pi 100 refId refId True l)) = [90]
     \<and> map totalDepth (altAlleles (generateAlleleInfo lib opt good_pi 100 refId refId True l)) = [100]
     \<and> map gqx (altAlleles (generateAlleleInfo lib opt good_pi 100 refId refId True l)) =
           [poisson_qscore lib 90 100 (word_of_int (min_qscore opt)) 40]
     \<and> \<not> is_snp (generateAlleleInfo lib opt good_pi 100 refId refId True l)
     \<and> map gq (samples (generateAlleleInfo lib opt good_pi 100 refId refId True l)) =
           [poisson_qscore lib 90 100 (word_of_int (min_qscore opt)) 40]"
proof -
  have f: "alleleObservationCounts l = scenarioCounts refId altId"
    "altAlleles l = []" "\<not> is_snp l" "length (samples l) = 1"
    using assms(1) by (simp_all add: scenarioLocus_def)
  show ?thesis
    by (simp add: generateAlleleInfo_reference f scenarioCounts_def)
qed

lemma maxSampleQuality_single: "map gq ss = [q] \<Longrightarrow> maxSampleQuality ss = max 0 q"
  by (cases ss) (auto simp: maxSampleQuality_def)


text \<open>
  C8. On a single-sample locus with total depth 100, reference base count 90 and one
  alternate base count 10, whatever the base ids of the reference and of the alternate:
  with reporting threshold 0.05 the alternate allele is reported, with its depth and its
  quality score, next to the reference allele (the records are in the order of the base
  ids), and the locus is flagged as a SNP; with threshold 0.2 the alternate allele is not
  reported, the only record is that of the reference allele, the locus is not flagged and
  it still receives a quality: the state returned is the state that the forced reference
  call \<^verbatim>\<open>generateAlleleInfo(refBaseId, true)\<close> leaves on the input locus, with the locus
  quality set. (With threshold 0.2 the reference fraction 0.9 passes the threshold, so
  the loop over the bases already pushes this record; no field records whether a call was
  forced.) The same state is returned with threshold 0.95, where no base passes.
\<close>

theorem snp_call_scenario:
  assumes "scenarioLocus base_to_id refId altId l"
  shows "(min_het_vf opt = 5 / 100 \<longrightarrow>
           (let res = position_snp_call_continuous lib base_to_id opt good_pi l;
                qRef = poisson_qscore lib 90 100 (word_of_int (min_qscore opt)) 40;
                qAlt = poisson_qscore lib 10 100 (word_of_int (min_qscore opt)) 40
            in altId \<in> base ` set (altAlleles res)
             \<and> map base (altAlleles res) = (if refId < altId then [refId, altId] else [altId, refId])
             \<and> map alleleDepth (altAlleles res) = (if refId < altId then [90, 10] else [10, 90])
             \<and> map totalDepth (altAlleles res) = [100, 100]
             \<and> map gqx (altAlleles res) = (if refId < altId then [qRef, qAlt] else [qAlt, qRef])
             \<and> is_snp res
             \<and> map gq (samples res) = [if refId < altId then qAlt else qRef]
             \<and> anyVariantAlleleQuality res = max 0 (if refId < altId then qAlt else qRef)))
       \<and> (min_het_vf opt = 2 / 10 \<or> min_het_vf opt = 95 / 100 \<longrightarrow>
           (let res = position_snp_call_continuous lib base_to_id opt good_pi l;
                forced = generateAlleleInfo lib opt good_pi (siteTotalDepth l)
                           (base_to_id (ref l)) (base_to_id (ref l)) True l;
                qRef = poisson_qscore lib 90 100 (word_of_int (min_qscore opt)) 40
            in res = forced\<lparr>anyVariantAlleleQuality := max 0 qRef\<rparr>
             \<and> altId \<notin> base ` set (altAlleles res)
             \<and> map base (altAlleles res) = [refId]
             \<and> map alleleDepth (altAlleles res) = [90]
             \<and> map totalDepth (altAlleles res) = [100]
             \<and> map gqx (altAlleles res) = [qRef]
             \<and> \<not> is_snp res
             \<and> map gq (samples res) = [qRef]
             \<and> anyVariantAlleleQuality res = max 0 qRef))"
proof -
  have d: "siteTotalDepth l = 100" by (rule depth100 [OF assms])
  have r0: "base_to_id (ref l) = refId" and ne: "refId \<noteq> altId" and e: "altAlleles l = []"
    using assms by (simp_all add: scenarioLocus_def)
  note fr = forced_reference [OF assms, of lib opt good_pi]
  from fr have fne: "altAlleles (generateAlleleInfo lib opt good_pi 100 refId refId True l) \<noteq> []"
    by auto
  have low: ?thesis if t: "min_het_vf opt = 5 / 100"
  proof -
    note c = callAllBases_low [OF assms t, of lib good_pi]
    from c have "altAlleles (callAllBases lib base_to_id opt good_pi l) \<noteq> []" by auto
    moreover have "altId \<in> base ` set (altAlleles (callAllBases lib base_to_id opt good_pi l))"
      using c [THEN conjunct1] by (metis list.set_intros(1,2) list.set_map)
    ultimately show ?thesis
      using c t by (simp add: position_snp_call_continuous_def Let_def maxSampleQuality_single)
  qed
  have notin: "altId \<notin> base ` set (altAlleles (generateAlleleInfo lib opt good_pi 100 refId refId True l))"
    using fr [THEN conjunct1] ne by (metis empty_iff empty_set list.set_map set_ConsD)
  have mid: ?thesis if t: "min_het_vf opt = 2 / 10"
  proof -
    note c = callAllBases_mid [OF assms t, of lib good_pi]
    show ?thesis
      using fr fne notin t
      by (simp add: position_snp_call_continuous_def Let_def maxSampleQuality_single d r0 c)
  qed
  have high: ?thesis if t: "min_het_vf opt = 95 / 100"
  proof -
    note c = callAllBases_high [OF assms t, of lib good_pi]
    show ?thesis
      using fr notin t
      by (simp add: position_snp_call_continuous_def Let_def maxSampleQuality_single d r0 c e)
  qed
  show ?thesis
  proof (cases "min_het_vf opt = 5 / 100 \<or> min_het_vf opt = 2 / 10 \<or> min_het_vf opt = 95 / 100")
    case True
    then show ?thesis using low mid high by blast
  next
    case False
    then show ?thesis by simp
  qed
qed

lemma scenario_siteLocus: "scenarioLocus (\<lambda>c. if c = CHR ''T'' then 3 else 0) 3 1 siteLocus"
  by (simp add: scenarioLocus_def siteLocus_def N_BASE_def)

theorem snp_call_scenario_witness:
  "scenarioLocus (\<lambda>c. if c = CHR ''T'' then 3 else 0) 3 1 siteLocus
   \<and> map base (altAlleles (position_snp_call_continuous idealNumerics (\<lambda>c. if c = CHR ''T'' then 3 else 0)
        \<lparr>min_het_vf = 5 / 100, min_qscore = 17, noise_floor = 0\<rparr> \<lparr>calls = []\<rparr> siteLocus)) = [1, 3]
   \<and> map alleleDepth (altAlleles (position_snp_call_continuous idealNumerics (\<lambda>c. if c = CHR ''T'' then 3 else 0)
        \<lparr>min_het_vf = 5 / 100, min_qscore = 17, noise_floor = 0\<rparr> \<lparr>calls = []\<rparr> siteLocus)) = [10, 90]
   \<and> is_snp (position_snp_call_continuous idealNumerics (\<lambda>c. if c = CHR ''T'' then 3 else 0)
        \<lparr>min_het_vf = 5 / 100, min_qscore = 17, noise_floor = 0\<rparr> \<lparr>calls = []\<rparr> siteLocus)
   \<and> map base (altAlleles (position_snp_call_continuous idealNumerics (\<lambda>c. if c = CHR ''T'' then 3 else 0)
        \<lparr>min_het_vf = 2 / 10, min_qscore = 17, noise_floor = 0\<rparr> \<lparr>calls = []\<rparr> siteLocus)) = [3]
   \<and> \<not> is_snp (position_snp_call_continuous idealNumerics (\<lambda>c. if c = CHR ''T'' then 3 else 0)
        \<lparr>min_het_vf = 2 / 10, min_qscore = 17, noise_floor = 0\<rparr> \<lparr>calls = []\<rparr> siteLocus)
   \<and> map base (altAlleles (position_snp_call_continuous idealNumerics (\<lambda>c. if c = CHR ''T'' then 3 else 0)
        \<lparr>min_het_vf = 95 / 100, min_qscore = 17, noise_floor = 0\<rparr> \<lparr>calls = []\<rparr> siteLocus)) = [3]"
proof -
  have low: "map base (altAlleles (position_snp_call_continuous idealNumerics (\<lambda>c. if c = CHR ''T'' then 3 else 0)
        \<lparr>min_het_vf = 5 / 100, min_qscore = 17, noise_floor = 0\<rparr> \<lparr>calls = []\<rparr> siteLocus)) = [1, 3]
   \<and> map alleleDepth (altAlleles (position_snp_call_continuous idealNumerics (\<lambda>c. if c = CHR ''T'' then 3 else 0)
        \<lparr>min_het_vf = 5 / 100, min_qscore = 17, noise_floor = 0\<rparr> \<lparr>calls = []\<rparr> siteLocus)) = [10, 90]
   \<and> is_snp (position_snp_call_continuous idealNumerics (\<lambda>c. if c = CHR ''T'' then 3 else 0)
        \<lparr>min_het_vf = 5 / 100, min_qscore = 17, noise_floor = 0\<rparr> \<lparr>calls = []\<rparr> siteLocus)"
    using snp_call_scenario [OF scenario_siteLocus,
      of "\<lparr>min_het_vf = 5 / 100, min_qscore = 17, noise_floor = 0\<rparr>" idealNumerics "\<lparr>calls = []\<rparr>"]
    by (simp add: Let_def)
  have t2: "min_het_vf \<lparr>min_het_vf = 2 / 10, min_qscore = 17, noise_floor = 0\<rparr> = 2 / 10
            \<or> min_het_vf \<lparr>min_het_vf = 2 / 10, min_qscore = 17, noise_floor = 0\<rparr> = 95 / 100"
    by simp
  have t3: "min_het_vf \<lparr>min_het_vf = 95 / 100, min_qscore = 17, noise_floor = 0\<rparr> = 2 / 10
            \<or> min_het_vf \<lparr>min_het_vf = 95 / 100, min_qscore = 17, noise_floor = 0\<rparr> = 95 / 100"
    by simp
  note mid = snp_call_scenario [OF scenario_siteLocus,
      of "\<lparr>min_het_vf = 2 / 10, min_qscore = 17, noise_floor = 0\<rparr>" idealNumerics "\<lparr>calls = []\<rparr>",
      THEN conjunct2, THEN mp, OF t2, unfolded Let_def]
  note high = snp_call_scenario [OF scenario_siteLocus,
      of "\<lparr>min_het_vf = 95 / 100, min_qscore = 17, noise_floor = 0\<rparr>" idealNumerics "\<lparr>calls = []\<rparr>",
      THEN conjunct2, THEN mp, OF t3, unfolded Let_def]
  show ?thesis
    by (intro conjI scenario_siteLocus low [THEN conjunct1] low [THEN conjunct2, THEN conjunct1]
          low [THEN conjunct2, THEN conjunct2]
          mid [THEN conjunct2, THEN conjunct2, THEN conjunct1]
          mid [THEN conjunct2, THEN conjunct2, THEN conjunct2, THEN conjunct2, THEN conjunct2,
               THEN conjunct2, THEN conjunct1]
          high [THEN conjunct2, THEN conjunct2, THEN conjunct1])
qed

subsection \<open>Indel calling: \<^verbatim>\<open>add_indel_call\<close>\<close>

text \<open>
  The fields read from the indel records. \<^verbatim>\<open>total_confident_reads()\<close> is a method of
  the sample report whose body is outside the sources; its value is a field here. Of
  \<^verbatim>\<open>indelData\<close> only \<^verbatim>\<open>isForcedOutput\<close> is read (field \<open>indelIsForcedOutput\<close>, the name
  \<open>isForcedOutput\<close> being the site locus' field). Of the arguments of the allele's
  constructor, the depths and the sample report are kept.
\<close>

record starling_indel_sample_report_info =
  n_confident_indel_reads :: "32 word"
  total_confident_reads :: "32 word"

record IndelData =
  indelIsForcedOutput :: bool

record GermlineContinuousIndelAlleleInfo = GermlineContinuousAlleleInfo +
  indelSampleReportInfo :: starling_indel_sample_report_info

record GermlineContinuousIndelLocusInfo =
  "GermlineContinuousIndelAlleleInfo GermlineContinuousLocusInfo" +
  is_het :: bool

text \<open>
  Modelled from the spec: \<^verbatim>\<open>variant_frequency()\<close> is declared with the allele class,
  outside the sources; the specification's variant fraction of an indel allele is the
  confident-indel-read count divided by the total-confident-read count, the two depths the
  allele is constructed with.
\<close>

definition variant_frequency :: "'a GermlineContinuousAlleleInfo_scheme \<Rightarrow> real" where
  "variant_frequency allele = safeFrac (alleleDepth allele) (totalDepth allele)"

definition newIndelAllele ::
  "32 word \<Rightarrow> 32 word \<Rightarrow> starling_indel_sample_report_info \<Rightarrow> GermlineContinuousIndelAlleleInfo"
where
  "newIndelAllele depth count report =
     \<lparr>totalDepth = depth, alleleDepth = count, gqx = 0, indelSampleReportInfo = report\<rparr>"

text \<open>
  \<^verbatim>\<open>add_indel_call\<close>: \<open>add_indel_call_sample\<close> is one iteration of the loop over the
  samples (the allele scored is \<^verbatim>\<open>altAlleles.back()\<close>), \<open>add_indel_call_allele\<close> the first
  \<^verbatim>\<open>if\<close> statement, and \<open>add_indel_call\<close> the whole function.
\<close>

definition add_indel_call_sample ::
  "numerics \<Rightarrow> starling_base_options \<Rightarrow> starling_indel_sample_report_info \<Rightarrow> nat \<Rightarrow>
   GermlineContinuousIndelLocusInfo \<Rightarrow> GermlineContinuousIndelLocusInfo"
where
  "add_indel_call_sample lib opt report sampleIndex locusInfo =
     (let q = poisson_qscore lib (n_confident_indel_reads report) (total_confident_reads report)
                (word_of_int (min_qscore opt)) 40
      in locusInfo\<lparr>samples :=
                     (samples locusInfo)[sampleIndex := (samples locusInfo ! sampleIndex)\<lparr>gq := q\<rparr>],
                   altAlleles :=
                     butlast (altAlleles locusInfo) @ [(last (altAlleles locusInfo))\<lparr>gqx := q\<rparr>]\<rparr>)"

definition add_indel_call_allele ::
  "numerics \<Rightarrow> starling_base_options \<Rightarrow> IndelData \<Rightarrow> starling_indel_sample_report_info \<Rightarrow>
   GermlineContinuousIndelLocusInfo \<Rightarrow> GermlineContinuousIndelLocusInfo"
where
  "add_indel_call_allele lib opt indelData report locusInfo =
     (let vf = toDouble (n_confident_indel_reads report) / toDouble (total_confident_reads report)
      in if vf > min_het_vf opt \<or> indelIsForcedOutput indelData then
           (let l0 = locusInfo\<lparr>altAlleles := altAlleles locusInfo @
                       [newIndelAllele (total_confident_reads report)
                          (n_confident_indel_reads report) report]\<rparr>
            in fold (add_indel_call_sample lib opt report) [0 ..< length (samples l0)] l0)
         else locusInfo)"

definition add_indel_call ::
  "numerics \<Rightarrow> starling_base_options \<Rightarrow> IndelData \<Rightarrow> starling_indel_sample_report_info \<Rightarrow>
   GermlineContinuousIndelLocusInfo \<Rightarrow> GermlineContinuousIndelLocusInfo"
where
  "add_indel_call lib opt indelData report locusInfo =
     (let l1 = add_indel_call_allele lib opt indelData report locusInfo;
          l2 = (if altAlleles l1 \<noteq> [] then
                  l1\<lparr>is_het := (length (altAlleles l1) > 1
                                \<or> variant_frequency (hd (altAlleles l1)) < 1 - min_het_vf opt)\<rparr>
                else l1)
      in l2\<lparr>anyVariantAlleleQuality := maxSampleQuality (samples l2)\<rparr>)"

text \<open>A single-sample indel locus without allele records, and such loci as a predicate.\<close>

definition indelLocus :: GermlineContinuousIndelLocusInfo where
  "indelLocus = \<lparr>altAlleles = [], samples = [\<lparr>gq = 0\<rparr>], anyVariantAlleleQuality = 0, is_het = False\<rparr>"

definition freshIndelLocus :: "GermlineContinuousIndelLocusInfo \<Rightarrow> bool" where
  "freshIndelLocus l \<longleftrightarrow> altAlleles l = [] \<and> length (samples l) = 1"

text \<open>The specification's rule for heterozygosity.\<close>

definition hetRule :: "starling_base_options \<Rightarrow> GermlineContinuousIndelLocusInfo \<Rightarrow> bool" where
  "hetRule opt l \<longleftrightarrow>
     length (altAlleles l) > 1 \<or> variant_frequency (hd (altAlleles l)) < 1 - min_het_vf opt"

lemma add_indel_call_het:
  "altAlleles (add_indel_call lib opt indelData report l) \<noteq> [] \<Longrightarrow>
   is_het (add_indel_call lib opt indelData report l)
     = hetRule opt (add_indel_call lib opt indelData report l)"
  by (cases "altAlleles (add_indel_call_allele lib opt indelData report l) = []")
     (simp_all add: add_indel_call_def Let_def hetRule_def)

lemmas indel_unfold =
  add_indel_call_def add_indel_call_allele_def add_indel_call_sample_def Let_def toDouble_def newIndelAllele_def
  variant_frequency_def safeFrac_def

lemma fresh_samples: "freshIndelLocus l \<Longrightarrow> \<exists>s. samples l = [s] \<and> altAlleles l = []"
  by (cases "samples l") (auto simp: freshIndelLocus_def)

lemma indel_97:
  assumes "freshIndelLocus l" "min_het_vf opt = 8 / 10"
  shows "map variant_frequency (altAlleles (add_indel_call lib opt \<lparr>indelIsForcedOutput = False\<rparr>
            \<lparr>n_confident_indel_reads = 97, total_confident_reads = 100\<rparr> l)) = [97 / 100]
       \<and> \<not> is_het (add_indel_call lib opt \<lparr>indelIsForcedOutput = False\<rparr>
            \<lparr>n_confident_indel_reads = 97, total_confident_reads = 100\<rparr> l)"
proof -
  obtain s where "samples l = [s] \<and> altAlleles l = []" using fresh_samples assms(1) by blast
  then show ?thesis using assms(2) by (simp add: indel_unfold)
qed

lemma indel_50_forced:
  assumes "freshIndelLocus l" "min_het_vf opt = 8 / 10"
  shows "map variant_frequency (altAlleles (add_indel_call lib opt \<lparr>indelIsForcedOutput = True\<rparr>
            \<lparr>n_confident_indel_reads = 5, total_confident_reads = 10\<rparr> l)) = [1 / 2]
       \<and> \<not> is_het (add_indel_call lib opt \<lparr>indelIsForcedOutput = True\<rparr>
            \<lparr>n_confident_indel_reads = 5, total_confident_reads = 10\<rparr> l)"
proof -
  obtain s where "samples l = [s] \<and> altAlleles l = []" using fresh_samples assms(1) by blast
  then show ?thesis using assms(2) by (simp add: indel_unfold)
qed

lemma indel_50_unforced:
  assumes "freshIndelLocus l" "min_het_vf opt = 8 / 10"
  shows "altAlleles (add_indel_call lib opt \<lparr>indelIsForcedOutput = False\<rparr>
            \<lparr>n_confident_indel_reads = 5, total_confident_reads = 10\<rparr> l) = []
       \<and> is_het (add_indel_call lib opt \<lparr>indelIsForcedOutput = False\<rparr>
            \<lparr>n_confident_indel_reads = 5, total_confident_reads = 10\<rparr> l) = is_het l"
proof -
  obtain s where "samples l = [s] \<and> altAlleles l = []" using fresh_samples assms(1) by blast
  then show ?thesis using assms(2) by (simp add: indel_unfold)
qed

lemma indel_50_low_threshold:
  assumes "freshIndelLocus l" "min_het_vf opt = 2 / 10"
  shows "map variant_frequency (altAlleles (add_indel_call lib opt \<lparr>indelIsForcedOutput = False\<rparr>
            \<lparr>n_confident_indel_reads = 5, total_confident_reads = 10\<rparr> l)) = [1 / 2]
       \<and> is_het (add_indel_call lib opt \<lparr>indelIsForcedOutput = False\<rparr>
            \<lparr>n_confident_indel_reads = 5, total_confident_reads = 10\<rparr> l)"
proof -
  obtain s where "samples l = [s] \<and> altAlleles l = []" using fresh_samples assms(1) by blast
  then show ?thesis using assms(2) by (simp add: indel_unfold)
qed

text \<open>
  C9 (as amended). Once the locus has an allele record, \<open>is_het\<close> holds if and only if
  there is more than one allele record or the first allele's variant frequency is below
  \<open>1 - threshold\<close>. With threshold 0.8 a sole allele of frequency 0.97 is not
  heterozygous; a sole allele of frequency 0.5 is not heterozygous either, because 0.5 is not
  below 0.2, and it is recorded only when output is forced, because 0.5 does not exceed 0.8.
  With threshold 0.2 a sole allele of frequency 0.5 is heterozygous.
\<close>

theorem indel_heterozygosity:
  "(altAlleles (add_indel_call lib opt indelData report l) \<noteq> [] \<longrightarrow>
      is_het (add_indel_call lib opt indelData report l)
        = (length (altAlleles (add_indel_call lib opt indelData report l)) > 1
           \<or> variant_frequency (hd (altAlleles (add_indel_call lib opt indelData report l)))
               < 1 - min_het_vf opt))
   \<and> (freshIndelLocus l \<and> min_het_vf opt = 8 / 10 \<longrightarrow>
        (let r = add_indel_call lib opt \<lparr>indelIsForcedOutput = False\<rparr>
                   \<lparr>n_confident_indel_reads = 97, total_confident_reads = 100\<rparr> l
         in map variant_frequency (altAlleles r) = [97 / 100] \<and> \<not> is_het r)
      \<and> (let r = add_indel_call lib opt \<lparr>indelIsForcedOutput = True\<rparr>
                   \<lparr>n_confident_indel_reads = 5, total_confident_reads = 10\<rparr> l
         in map variant_frequency (altAlleles r) = [1 / 2] \<and> \<not> is_het r)
      \<and> (let r = add_indel_call lib opt \<lparr>indelIsForcedOutput = False\<rparr>
                   \<lparr>n_confident_indel_reads = 5, total_confident_reads = 10\<rparr> l
         in altAlleles r = [] \<and> is_het r = is_het l))
   \<and> (freshIndelLocus l \<and> min_het_vf opt = 2 / 10 \<longrightarrow>
        (let r = add_indel_call lib opt \<lparr>indelIsForcedOutput = False\<rparr>
                   \<lparr>n_confident_indel_reads = 5, total_confident_reads = 10\<rparr> l
         in map variant_frequency (altAlleles r) = [1 / 2] \<and> is_het r))"
  using add_indel_call_het [of lib opt indelData report l]
    indel_97 [of l opt lib] indel_50_forced [of l opt lib] indel_50_unforced [of l opt lib]
    indel_50_low_threshold [of l opt lib]
  by (simp add: Let_def hetRule_def)

lemma fresh_indelLocus: "freshIndelLocus indelLocus"
  by (simp add: freshIndelLocus_def indelLocus_def)

theorem indel_heterozygosity_witness:
  "freshIndelLocus indelLocus
   \<and> \<not> is_het (add_indel_call idealNumerics \<lparr>min_het_vf = 8 / 10, min_qscore = 17, noise_floor = 0\<rparr>
          \<lparr>indelIsForcedOutput = False\<rparr>
          \<lparr>n_confident_indel_reads = 97, total_confident_reads = 100\<rparr> indelLocus)
   \<and> is_het (add_indel_call idealNumerics \<lparr>min_het_vf = 2 / 10, min_qscore = 17, noise_floor = 0\<rparr>
          \<lparr>indelIsForcedOutput = False\<rparr>
          \<lparr>n_confident_indel_reads = 5, total_confident_reads = 10\<rparr> indelLocus)"
  using fresh_indelLocus
    indel_heterozygosity [of idealNumerics "\<lparr>min_het_vf = 8 / 10, min_qscore = 17, noise_floor = 0\<rparr>"
      "\<lparr>indelIsForcedOutput = False\<rparr>"
      "\<lparr>n_confident_indel_reads = 97, total_confident_reads = 100\<rparr>" indelLocus]
    indel_heterozygosity [of idealNumerics "\<lparr>min_het_vf = 2 / 10, min_qscore = 17, noise_floor = 0\<rparr>"
      "\<lparr>indelIsForcedOutput = False\<rparr>"
      "\<lparr>n_confident_indel_reads = 5, total_confident_reads = 10\<rparr>" indelLocus]
  by (simp add: Let_def)

text \<open>
  C9 as stated fails: with threshold 0.8, a sole allele of variant frequency 0.5 (5 of 10
  confident reads, output forced) is not declared heterozygous.
\<close>

theorem indel_half_not_heterozygous:
  "map variant_frequency (altAlleles (add_indel_call idealNumerics
          \<lparr>min_het_vf = 8 / 10, min_qscore = 17, noise_floor = 0\<rparr> \<lparr>indelIsForcedOutput = True\<rparr>
          \<lparr>n_confident_indel_reads = 5, total_confident_reads = 10\<rparr> indelLocus)) = [1 / 2]
   \<and> \<not> is_het (add_indel_call idealNumerics
          \<lparr>min_het_vf = 8 / 10, min_qscore = 17, noise_floor = 0\<rparr> \<lparr>indelIsForcedOutput = True\<rparr>
          \<lparr>n_confident_indel_reads = 5, total_confident_reads = 10\<rparr> indelLocus)"
  using indel_50_forced [OF fresh_indelLocus,
      of "\<lparr>min_het_vf = 8 / 10, min_qscore = 17, noise_floor = 0\<rparr>" idealNumerics]
  by simp

section \<open>Basecall error counts\<close>

subsection \<open>Data\<close>

text \<open>
  A \<^verbatim>\<open>std::map\<close> is the list of its entries in iteration order, that is with strictly
  increasing keys; a lookup (\<^verbatim>\<open>find\<close>) is \<open>map_of\<close>.
\<close>

type_synonym ('k, 'v) stdmap = "('k \<times> 'v) list"

type_synonym qual_count_t = "(16 word, 32 word) stdmap"

text \<open>
  The counts of one strand at one site, the pair of strands that is an observation pattern,
  and the raw input observation with its two-element arrays \<^verbatim>\<open>ref\<close> and \<^verbatim>\<open>alt\<close> of
  per-quality counts (fields \<open>refQuals\<close> and \<open>altQuals\<close>, a pair each).
\<close>

record StrandBasecallCounts =
  refAlleleCount :: "32 word"
  altAlleleCount :: qual_count_t

record BasecallErrorContextObservation =
  strand0 :: StrandBasecallCounts
  strand1 :: StrandBasecallCounts

record BasecallErrorContextInputObservation =
  refQuals :: "qual_count_t \<times> qual_count_t"
  altQuals :: "qual_count_t \<times> qual_count_t"

subsection \<open>Canonical patterns: \<^verbatim>\<open>compressCounts\<close>\<close>

text \<open>
  \<^verbatim>\<open>compressInt\<close> (\<^verbatim>\<open>blt_util/IntegerLogCompressor.hh\<close>) and \<^verbatim>\<open>operator<\<close> of
  \<^verbatim>\<open>StrandBasecallCounts\<close> are outside the sources; both are parameters of the definitions
  that call them.
\<close>

definition bitCount :: nat where
  "bitCount = 4"

definition StrandBasecallCounts_compressCounts ::
  "(32 word \<Rightarrow> nat \<Rightarrow> 32 word) \<Rightarrow> StrandBasecallCounts \<Rightarrow> StrandBasecallCounts"
where
  "StrandBasecallCounts_compressCounts compressInt s =
     \<lparr>refAlleleCount = compressInt (refAlleleCount s) bitCount,
      altAlleleCount = map (\<lambda>keyVal. (fst keyVal, compressInt (snd keyVal) bitCount))
                         (altAlleleCount s)\<rparr>"

definition compressCounts ::
  "(32 word \<Rightarrow> nat \<Rightarrow> 32 word) \<Rightarrow> (StrandBasecallCounts \<Rightarrow> StrandBasecallCounts \<Rightarrow> bool) \<Rightarrow>
   BasecallErrorContextObservation \<Rightarrow> BasecallErrorContextObservation"
where
  "compressCounts compressInt strandLess obs =
     (let obs1 =
            (if altAlleleCount (strand0 obs) = [] \<and> altAlleleCount (strand1 obs) = [] then
               \<lparr>strand0 = (strand0 obs)\<lparr>refAlleleCount :=
                             refAlleleCount (strand0 obs) + refAlleleCount (strand1 obs)\<rparr>,
                strand1 = (strand1 obs)\<lparr>refAlleleCount := 0\<rparr>\<rparr>
             else obs);
          s0 = StrandBasecallCounts_compressCounts compressInt (strand0 obs1);
          s1 = StrandBasecallCounts_compressCounts compressInt (strand1 obs1)
      in if strandLess s0 s1 then \<lparr>strand0 = s1, strand1 = s0\<rparr> else \<lparr>strand0 = s0, strand1 = s1\<rparr>)"

text \<open>
  The part of \<^verbatim>\<open>addObservation\<close> that builds the pattern \<^verbatim>\<open>compressedObs\<close> from the
  input observation: the reference counts of a strand are summed over the quality levels,
  the alt counts are copied, and the pattern is compressed.
\<close>

definition sumCounts :: "qual_count_t \<Rightarrow> 32 word" where
  "sumCounts m = fold (\<lambda>val n. n + snd val) m 0"

definition addObservation_compressedObs ::
  "(32 word \<Rightarrow> nat \<Rightarrow> 32 word) \<Rightarrow> (StrandBasecallCounts \<Rightarrow> StrandBasecallCounts \<Rightarrow> bool) \<Rightarrow>
   BasecallErrorContextInputObservation \<Rightarrow> BasecallErrorContextObservation"
where
  "addObservation_compressedObs compressInt strandLess obs =
     compressCounts compressInt strandLess
       \<lparr>strand0 = \<lparr>refAlleleCount = sumCounts (fst (refQuals obs)),
                   altAlleleCount = fst (altQuals obs)\<rparr>,
        strand1 = \<lparr>refAlleleCount = sumCounts (snd (refQuals obs)),
                   altAlleleCount = snd (altQuals obs)\<rparr>\<rparr>"

text \<open>
  The vocabulary of the specification: the strand-swapped twin of a pattern; a quantizer,
  which fixes \<open>0\<close> and is idempotent at the bit budget; a total ordering; and an ordering
  that puts no strand below the empty strand.
\<close>

definition swapStrands :: "BasecallErrorContextObservation \<Rightarrow> BasecallErrorContextObservation" where
  "swapStrands obs = \<lparr>strand0 = strand1 obs, strand1 = strand0 obs\<rparr>"

definition quantizer :: "(32 word \<Rightarrow> nat \<Rightarrow> 32 word) \<Rightarrow> bool" where
  "quantizer compressInt \<longleftrightarrow>
     compressInt 0 bitCount = 0 \<and>
     (\<forall>n. compressInt (compressInt n bitCount) bitCount = compressInt n bitCount)"

definition totalOrdering :: "('a \<Rightarrow> 'a \<Rightarrow> bool) \<Rightarrow> bool" where
  "totalOrdering strandLess \<longleftrightarrow>
     (\<forall>a b. \<not> (strandLess a b \<and> strandLess b a)) \<and> (\<forall>a b. a = b \<or> strandLess a b \<or> strandLess b a)"

definition emptyStrandLeast :: "(StrandBasecallCounts \<Rightarrow> StrandBasecallCounts \<Rightarrow> bool) \<Rightarrow> bool" where
  "emptyStrandLeast strandLess \<longleftrightarrow>
     (\<forall>s. \<not> strandLess s \<lparr>refAlleleCount = 0, altAlleleCount = []\<rparr>)"

lemma strand_compress_idem:
  "quantizer c \<Longrightarrow>
   StrandBasecallCounts_compressCounts c (StrandBasecallCounts_compressCounts c s)
   = StrandBasecallCounts_compressCounts c s"
  by (simp add: quantizer_def StrandBasecallCounts_compressCounts_def)

lemma strand_compress_alt_empty [simp]:
  "altAlleleCount (StrandBasecallCounts_compressCounts c s) = [] \<longleftrightarrow> altAlleleCount s = []"
  by (simp add: StrandBasecallCounts_compressCounts_def)

lemma compressCounts_ordered:
  "\<exists>a b. compressCounts c strandLess obs
     = (if strandLess a b then \<lparr>strand0 = b, strand1 = a\<rparr> else \<lparr>strand0 = a, strand1 = b\<rparr>)"
  unfolding compressCounts_def Let_def by blast

lemma compressCounts_canonical:
  assumes "totalOrdering strandLess"
  shows "\<not> strandLess (strand0 (compressCounts c strandLess obs))
                      (strand1 (compressCounts c strandLess obs))"
proof -
  obtain a b where e: "compressCounts c strandLess obs
     = (if strandLess a b then \<lparr>strand0 = b, strand1 = a\<rparr> else \<lparr>strand0 = a, strand1 = b\<rparr>)"
    using compressCounts_ordered by blast
  have "strandLess a b \<Longrightarrow> \<not> strandLess b a"
    using assms unfolding totalOrdering_def by blast
  then show ?thesis unfolding e by (cases "strandLess a b") simp_all
qed

lemma ref_only_form:
  assumes "altAlleleCount (strand0 obs) = [] \<and> altAlleleCount (strand1 obs) = []"
  shows "obs = \<lparr>strand0 = \<lparr>refAlleleCount = refAlleleCount (strand0 obs), altAlleleCount = []\<rparr>,
               strand1 = \<lparr>refAlleleCount = refAlleleCount (strand1 obs), altAlleleCount = []\<rparr>\<rparr>"
  using assms by (cases obs, cases "strand0 obs", cases "strand1 obs") simp

lemma compressCounts_ref_only:
  "compressCounts c strandLess
     \<lparr>strand0 = \<lparr>refAlleleCount = r0, altAlleleCount = []\<rparr>,
      strand1 = \<lparr>refAlleleCount = r1, altAlleleCount = []\<rparr>\<rparr>
   = (if strandLess \<lparr>refAlleleCount = c (r0 + r1) bitCount, altAlleleCount = []\<rparr>
                    \<lparr>refAlleleCount = c 0 bitCount, altAlleleCount = []\<rparr>
      then \<lparr>strand0 = \<lparr>refAlleleCount = c 0 bitCount, altAlleleCount = []\<rparr>,
            strand1 = \<lparr>refAlleleCount = c (r0 + r1) bitCount, altAlleleCount = []\<rparr>\<rparr>
      else \<lparr>strand0 = \<lparr>refAlleleCount = c (r0 + r1) bitCount, altAlleleCount = []\<rparr>,
            strand1 = \<lparr>refAlleleCount = c 0 bitCount, altAlleleCount = []\<rparr>\<rparr>)"
  by (simp add: compressCounts_def Let_def StrandBasecallCounts_compressCounts_def)

lemma compressCounts_with_alt:
  assumes "\<not> (altAlleleCount (strand0 obs) = [] \<and> altAlleleCount (strand1 obs) = [])"
  shows "compressCounts c strandLess obs
   = (if strandLess (StrandBasecallCounts_compressCounts c (strand0 obs))
                    (StrandBasecallCounts_compressCounts c (strand1 obs))
      then \<lparr>strand0 = StrandBasecallCounts_compressCounts c (strand1 obs),
            strand1 = StrandBasecallCounts_compressCounts c (strand0 obs)\<rparr>
      else \<lparr>strand0 = StrandBasecallCounts_compressCounts c (strand0 obs),
            strand1 = StrandBasecallCounts_compressCounts c (strand1 obs)\<rparr>)"
  unfolding compressCounts_def Let_def if_not_P [OF assms] by simp

lemma compressCounts_swap:
  assumes "totalOrdering strandLess"
  shows "compressCounts c strandLess (swapStrands obs) = compressCounts c strandLess obs"
proof (cases "altAlleleCount (strand0 obs) = [] \<and> altAlleleCount (strand1 obs) = []")
  case True
  have s0: "strand0 obs = \<lparr>refAlleleCount = refAlleleCount (strand0 obs), altAlleleCount = []\<rparr>"
    using True by (cases "strand0 obs") simp
  have s1: "strand1 obs = \<lparr>refAlleleCount = refAlleleCount (strand1 obs), altAlleleCount = []\<rparr>"
    using True by (cases "strand1 obs") simp
  have sw: "swapStrands obs
        = \<lparr>strand0 = \<lparr>refAlleleCount = refAlleleCount (strand1 obs), altAlleleCount = []\<rparr>,
           strand1 = \<lparr>refAlleleCount = refAlleleCount (strand0 obs), altAlleleCount = []\<rparr>\<rparr>"
    unfolding swapStrands_def using s0 s1 by simp
  have l: "compressCounts c strandLess (swapStrands obs) =
      compressCounts c strandLess
        \<lparr>strand0 = \<lparr>refAlleleCount = refAlleleCount (strand1 obs), altAlleleCount = []\<rparr>,
         strand1 = \<lparr>refAlleleCount = refAlleleCount (strand0 obs), altAlleleCount = []\<rparr>\<rparr>"
    by (simp only: sw)
  have r: "compressCounts c strandLess obs =
      compressCounts c strandLess
        \<lparr>strand0 = \<lparr>refAlleleCount = refAlleleCount (strand0 obs), altAlleleCount = []\<rparr>,
         strand1 = \<lparr>refAlleleCount = refAlleleCount (strand1 obs), altAlleleCount = []\<rparr>\<rparr>"
    using ref_only_form [OF True] by simp
  show ?thesis
    unfolding l r compressCounts_ref_only by (simp add: add.commute)
next
  case False
  let ?a = "StrandBasecallCounts_compressCounts c (strand0 obs)"
  let ?b = "StrandBasecallCounts_compressCounts c (strand1 obs)"
  have tri: "?a = ?b \<or> (strandLess ?a ?b \<and> \<not> strandLess ?b ?a) \<or> (strandLess ?b ?a \<and> \<not> strandLess ?a ?b)"
    using assms unfolding totalOrdering_def by blast
  have F': "\<not> (altAlleleCount (strand0 (swapStrands obs)) = []
                   \<and> altAlleleCount (strand1 (swapStrands obs)) = [])"
    using False by (auto simp: swapStrands_def)
  have sel: "strand0 (swapStrands obs) = strand1 obs" "strand1 (swapStrands obs) = strand0 obs"
    by (simp_all add: swapStrands_def)
  show ?thesis
    unfolding compressCounts_with_alt [OF False] compressCounts_with_alt [OF F'] sel
    using tri by auto
qed

lemma compressCounts_idem:
  assumes "totalOrdering strandLess" "quantizer c"
  shows "compressCounts c strandLess (compressCounts c strandLess obs) = compressCounts c strandLess obs"
proof (cases "altAlleleCount (strand0 obs) = [] \<and> altAlleleCount (strand1 obs) = []")
  case True
  have z: "c 0 bitCount = 0" and ci: "c (c n bitCount) bitCount = c n bitCount" for n
    using assms(2) by (simp_all add: quantizer_def)
  let ?r = "refAlleleCount (strand0 obs) + refAlleleCount (strand1 obs)"
  let ?A = "\<lparr>refAlleleCount = c ?r bitCount, altAlleleCount = []\<rparr>"
  let ?Z = "\<lparr>refAlleleCount = 0, altAlleleCount = []\<rparr> :: StrandBasecallCounts"
  have first: "compressCounts c strandLess obs
               = (if strandLess ?A ?Z then \<lparr>strand0 = ?Z, strand1 = ?A\<rparr> else \<lparr>strand0 = ?A, strand1 = ?Z\<rparr>)"
    by (subst ref_only_form [OF True]) (simp add: compressCounts_ref_only z)
  show ?thesis
    unfolding first by (simp add: compressCounts_ref_only z ci)
next
  case False
  let ?a = "StrandBasecallCounts_compressCounts c (strand0 obs)"
  let ?b = "StrandBasecallCounts_compressCounts c (strand1 obs)"
  have asym: "strandLess ?a ?b \<Longrightarrow> \<not> strandLess ?b ?a"
    using assms(1) unfolding totalOrdering_def by blast
  have na: "\<not> (altAlleleCount ?a = [] \<and> altAlleleCount ?b = [])"
    and nb: "\<not> (altAlleleCount ?b = [] \<and> altAlleleCount ?a = [])"
    using False by auto
  show ?thesis
  proof (cases "strandLess ?a ?b")
    case True
    have "compressCounts c strandLess obs = \<lparr>strand0 = ?b, strand1 = ?a\<rparr>"
      using True by (simp add: compressCounts_with_alt [OF False])
    moreover have "compressCounts c strandLess \<lparr>strand0 = ?b, strand1 = ?a\<rparr> = \<lparr>strand0 = ?b, strand1 = ?a\<rparr>"
      using asym [OF True] nb
      by (subst compressCounts_with_alt) (simp_all add: strand_compress_idem [OF assms(2)])
    ultimately show ?thesis by simp
  next
    case F: False
    have "compressCounts c strandLess obs = \<lparr>strand0 = ?a, strand1 = ?b\<rparr>"
      using F by (simp add: compressCounts_with_alt [OF False])
    moreover have "compressCounts c strandLess \<lparr>strand0 = ?a, strand1 = ?b\<rparr> = \<lparr>strand0 = ?a, strand1 = ?b\<rparr>"
      using F na
      by (subst compressCounts_with_alt) (simp_all add: strand_compress_idem [OF assms(2)])
    ultimately show ?thesis by simp
  qed
qed

text \<open>
  Modelled from the spec: \<^verbatim>\<open>compressInt\<close> is outside the sources; the specification has
  each count rounded to a bounded number of significant bits. \<open>compressNat n\<close> keeps the
  \<open>n\<close> most significant bits of a number and clears the rest. It instantiates the
  quantizer in the examples below.
\<close>

function compressNat :: "nat \<Rightarrow> nat \<Rightarrow> nat" where
  "compressNat n x = (if x < 2 ^ n then x else 2 * compressNat n (x div 2))"
  by pat_completeness auto
termination
proof (relation "measure snd")
  show "wf (measure snd)" by simp
next
  fix n x :: nat
  assume "\<not> x < 2 ^ n"
  then have "0 < x" by (cases "x = 0") simp_all
  then show "((n, x div 2), (n, x)) \<in> measure snd" by simp
qed

declare compressNat.simps [simp del]

definition compressIntModel :: "32 word \<Rightarrow> nat \<Rightarrow> 32 word" where
  "compressIntModel x n = word_of_nat (compressNat n (unat x))"

lemma compressNat_le: "compressNat n x \<le> x"
proof (induction n x rule: compressNat.induct)
  case (1 n x)
  show ?case
  proof (cases "x < 2 ^ n")
    case True
    then show ?thesis by (simp add: compressNat.simps [of n x])
  next
    case False
    then have "compressNat n (x div 2) \<le> x div 2" using 1 by simp
    then show ?thesis using False by (simp add: compressNat.simps [of n x])
  qed
qed

lemma compressNat_lower:
  "0 < n \<Longrightarrow> 2 ^ n \<le> x \<Longrightarrow> 2 ^ n \<le> compressNat n x"
proof (induction n x rule: compressNat.induct)
  case (1 n x)
  obtain m where n: "n = Suc m" using 1(2) by (cases n) simp_all
  have half: "2 ^ m \<le> x div 2" using 1(3) n by simp
  have step: "compressNat n x = 2 * compressNat n (x div 2)"
    using 1(3) by (simp add: compressNat.simps [of n x])
  show ?case
  proof (cases "x div 2 < 2 ^ n")
    case True
    then have "compressNat n (x div 2) = x div 2" by (simp add: compressNat.simps [of n "x div 2"])
    then show ?thesis using step half n by simp
  next
    case False
    then have "2 ^ n \<le> compressNat n (x div 2)" using 1 by simp
    then show ?thesis using step by simp
  qed
qed

lemma compressNat_idem:
  "0 < n \<Longrightarrow> compressNat n (compressNat n x) = compressNat n x"
proof (induction n x rule: compressNat.induct)
  case (1 n x)
  show ?case
  proof (cases "x < 2 ^ n")
    case True
    then show ?thesis by (simp add: compressNat.simps [of n x])
  next
    case False
    let ?h = "compressNat n (x div 2)"
    have step: "compressNat n x = 2 * ?h"
      using False by (simp add: compressNat.simps [of n x])
    have "2 ^ n \<le> compressNat n x" using compressNat_lower [of n x] 1(2) False by simp
    then have "compressNat n (2 * ?h) = 2 * compressNat n ?h"
      unfolding step by (simp add: compressNat.simps [of n "2 * ?h"])
    also have "\<dots> = 2 * ?h" using 1 False by simp
    finally show ?thesis unfolding step .
  qed
qed

lemma unat_compressIntModel: "unat (compressIntModel x n) = compressNat n (unat x)"
proof -
  have "compressNat n (unat x) \<le> unat x" by (rule compressNat_le)
  also have "unat x < 2 ^ 32" using unsigned_less [of x] by simp
  finally have "compressNat n (unat x) < 2 ^ 32" .
  then show ?thesis by (simp add: compressIntModel_def unat_of_nat)
qed

lemma quantizer_model: "quantizer compressIntModel"
proof -
  have "compressIntModel 0 bitCount = 0"
    by (simp add: compressIntModel_def compressNat.simps [of _ 0])
  moreover have "compressIntModel (compressIntModel n bitCount) bitCount = compressIntModel n bitCount" for n
    by (rule word_unat_eq_iff [THEN iffD2])
       (simp add: unat_compressIntModel compressNat_idem bitCount_def)
  ultimately show ?thesis by (simp add: quantizer_def)
qed

text \<open>
  Modelled from the spec: \<^verbatim>\<open>operator<\<close> of \<^verbatim>\<open>StrandBasecallCounts\<close> is outside the
  sources; the specification asks for a total ordering of the strand summaries. This one
  compares the reference counts and then the alt counts, entry by entry as
  \<^verbatim>\<open>std::map\<close> compares. It instantiates the ordering in the examples below.
\<close>

fun altLess :: "qual_count_t \<Rightarrow> qual_count_t \<Rightarrow> bool" where
  "altLess [] [] = False"
| "altLess [] (y # ys) = True"
| "altLess (x # xs) [] = False"
| "altLess (x # xs) (y # ys) =
     (fst x < fst y \<or> (fst x = fst y \<and> (snd x < snd y \<or> (snd x = snd y \<and> altLess xs ys))))"

definition strandLessModel :: "StrandBasecallCounts \<Rightarrow> StrandBasecallCounts \<Rightarrow> bool" where
  "strandLessModel a b \<longleftrightarrow>
     refAlleleCount a < refAlleleCount b
     \<or> (refAlleleCount a = refAlleleCount b \<and> altLess (altAlleleCount a) (altAlleleCount b))"

lemma altLess_asym: "altLess xs ys \<Longrightarrow> \<not> altLess ys xs"
  by (induction xs ys rule: altLess.induct) auto

lemma altLess_total: "xs = ys \<or> altLess xs ys \<or> altLess ys xs"
  by (induction xs ys rule: altLess.induct) (auto simp: prod_eq_iff)

lemma totalOrdering_model: "totalOrdering strandLessModel"
proof -
  have "\<not> (strandLessModel a b \<and> strandLessModel b a)" for a b
    using altLess_asym [of "altAlleleCount a" "altAlleleCount b"]
    by (auto simp: strandLessModel_def)
  moreover have "a = b \<or> strandLessModel a b \<or> strandLessModel b a" for a b
    using altLess_total [of "altAlleleCount a" "altAlleleCount b"]
    by (cases a, cases b) (auto simp: strandLessModel_def)
  ultimately show ?thesis unfolding totalOrdering_def by blast
qed

lemma leastEmpty_model: "\<not> strandLessModel s \<lparr>refAlleleCount = 0, altAlleleCount = []\<rparr>"
  by (cases "altAlleleCount s") (auto simp: strandLessModel_def)

text \<open>
  C6. For every total ordering of the strand summaries and every quantizer,
  \<open>compressCounts\<close> is idempotent, gives the same pattern for an observation and for its
  strand-swapped twin, and returns a pattern whose \<open>strand0\<close> is not below its \<open>strand1\<close>.
\<close>

theorem compressCounts_canonicalization:
  assumes "totalOrdering strandLess" and "quantizer compressInt"
  shows "compressCounts compressInt strandLess (compressCounts compressInt strandLess obs)
           = compressCounts compressInt strandLess obs
       \<and> compressCounts compressInt strandLess (swapStrands obs)
           = compressCounts compressInt strandLess obs
       \<and> \<not> strandLess (strand0 (compressCounts compressInt strandLess obs))
                        (strand1 (compressCounts compressInt strandLess obs))"
  using compressCounts_idem [OF assms] compressCounts_swap [OF assms(1)]
    compressCounts_canonical [OF assms(1)]
  by simp

lemma compressNat_37: "compressNat 4 37 = 36"
  by (simp add: compressNat.simps)

lemma compressNat_100: "compressNat 4 100 = 96"
  by (simp add: compressNat.simps)

lemma compressNat_small: "x < 16 \<Longrightarrow> compressNat 4 x = x"
  by (simp add: compressNat.simps [of 4 x])

lemma compressIntModel_values:
  "compressIntModel 37 bitCount = 36" "compressIntModel 100 bitCount = 96"
  "compressIntModel 1 bitCount = 1" "compressIntModel 0 bitCount = 0"
  by (simp_all add: compressIntModel_def bitCount_def compressNat_37 compressNat_100
      compressNat_small)

theorem compressCounts_canonicalization_witness:
  "totalOrdering strandLessModel \<and> quantizer compressIntModel
   \<and> compressCounts compressIntModel strandLessModel
        \<lparr>strand0 = \<lparr>refAlleleCount = 37, altAlleleCount = [(30, 1)]\<rparr>,
         strand1 = \<lparr>refAlleleCount = 100, altAlleleCount = []\<rparr>\<rparr>
      = \<lparr>strand0 = \<lparr>refAlleleCount = 96, altAlleleCount = []\<rparr>,
         strand1 = \<lparr>refAlleleCount = 36, altAlleleCount = [(30, 1)]\<rparr>\<rparr>
   \<and> compressCounts compressIntModel strandLessModel
        \<lparr>strand0 = \<lparr>refAlleleCount = 96, altAlleleCount = []\<rparr>,
         strand1 = \<lparr>refAlleleCount = 36, altAlleleCount = [(30, 1)]\<rparr>\<rparr>
      = \<lparr>strand0 = \<lparr>refAlleleCount = 96, altAlleleCount = []\<rparr>,
         strand1 = \<lparr>refAlleleCount = 36, altAlleleCount = [(30, 1)]\<rparr>\<rparr>
   \<and> compressCounts compressIntModel strandLessModel
        \<lparr>strand0 = \<lparr>refAlleleCount = 100, altAlleleCount = []\<rparr>,
         strand1 = \<lparr>refAlleleCount = 37, altAlleleCount = [(30, 1)]\<rparr>\<rparr>
      = \<lparr>strand0 = \<lparr>refAlleleCount = 96, altAlleleCount = []\<rparr>,
         strand1 = \<lparr>refAlleleCount = 36, altAlleleCount = [(30, 1)]\<rparr>\<rparr>"
proof -
  let ?obs = "\<lparr>strand0 = \<lparr>refAlleleCount = 37, altAlleleCount = [(30, 1)]\<rparr>,
         strand1 = \<lparr>refAlleleCount = 100, altAlleleCount = []\<rparr>\<rparr>"
  have v: "compressCounts compressIntModel strandLessModel ?obs
      = \<lparr>strand0 = \<lparr>refAlleleCount = 96, altAlleleCount = []\<rparr>,
         strand1 = \<lparr>refAlleleCount = 36, altAlleleCount = [(30, 1)]\<rparr>\<rparr>"
    by (simp add: compressCounts_def Let_def StrandBasecallCounts_compressCounts_def
        compressIntModel_values strandLessModel_def)
  show ?thesis
    using compressCounts_canonicalization [OF totalOrdering_model quantizer_model, of ?obs]
      totalOrdering_model quantizer_model
    by (simp add: v swapStrands_def)
qed

text \<open>
  C7. When neither strand of a site observation has alt counts, the pattern has the
  quantized sum of the two strands' reference counts in \<open>strand0\<close> and a reference count of
  zero in \<open>strand1\<close>; when a strand has alt counts, the pattern consists of the two strands,
  in one order or the other, each with its own quantized reference count. (The sums are
  those of \<^verbatim>\<open>unsigned\<close>; the first part needs an ordering with no strand below the empty
  one, so that the summed strand stays in \<open>strand0\<close>.)
\<close>

theorem addObservation_pattern:
  assumes "quantizer compressInt" and "emptyStrandLeast strandLess"
  shows "(altQuals obs = ([], []) \<longrightarrow>
            addObservation_compressedObs compressInt strandLess obs
            = \<lparr>strand0 = \<lparr>refAlleleCount =
                   compressInt (sumCounts (fst (refQuals obs)) + sumCounts (snd (refQuals obs))) bitCount,
                   altAlleleCount = []\<rparr>,
               strand1 = \<lparr>refAlleleCount = 0, altAlleleCount = []\<rparr>\<rparr>)
       \<and> (altQuals obs \<noteq> ([], []) \<longrightarrow>
            (let s0 = StrandBasecallCounts_compressCounts compressInt
                        \<lparr>refAlleleCount = sumCounts (fst (refQuals obs)),
                         altAlleleCount = fst (altQuals obs)\<rparr>;
                 s1 = StrandBasecallCounts_compressCounts compressInt
                        \<lparr>refAlleleCount = sumCounts (snd (refQuals obs)),
                         altAlleleCount = snd (altQuals obs)\<rparr>;
                 p = addObservation_compressedObs compressInt strandLess obs
             in (p = \<lparr>strand0 = s0, strand1 = s1\<rparr> \<or> p = \<lparr>strand0 = s1, strand1 = s0\<rparr>)
              \<and> refAlleleCount s0 = compressInt (sumCounts (fst (refQuals obs))) bitCount
              \<and> refAlleleCount s1 = compressInt (sumCounts (snd (refQuals obs))) bitCount))"
proof -
  have z: "compressInt 0 bitCount = 0" using assms(1) by (simp add: quantizer_def)
  have least: "\<not> strandLess s \<lparr>refAlleleCount = 0, altAlleleCount = []\<rparr>" for s
    using assms(2) by (simp add: emptyStrandLeast_def)
  have a: "altQuals obs = ([], []) \<Longrightarrow> ?thesis"
    by (simp add: addObservation_compressedObs_def compressCounts_ref_only z least)
  have b: "altQuals obs \<noteq> ([], []) \<Longrightarrow> ?thesis"
  proof -
    assume ne: "altQuals obs \<noteq> ([], [])"
    then have "\<not> (fst (altQuals obs) = [] \<and> snd (altQuals obs) = [])"
      by (metis prod.collapse)
    then show ?thesis
      using ne
      by (simp add: addObservation_compressedObs_def compressCounts_with_alt Let_def)
         (simp add: StrandBasecallCounts_compressCounts_def)
  qed
  show ?thesis using a b by blast
qed

theorem addObservation_pattern_witness:
  "quantizer compressIntModel \<and> emptyStrandLeast strandLessModel
   \<and> addObservation_compressedObs compressIntModel strandLessModel
       \<lparr>refQuals = ([(30, 20), (35, 17)], [(30, 63)]), altQuals = ([], [])\<rparr>
     = \<lparr>strand0 = \<lparr>refAlleleCount = 96, altAlleleCount = []\<rparr>,
        strand1 = \<lparr>refAlleleCount = 0, altAlleleCount = []\<rparr>\<rparr>
   \<and> addObservation_compressedObs compressIntModel strandLessModel
       \<lparr>refQuals = ([(30, 37)], [(30, 100)]), altQuals = ([(30, 1)], [])\<rparr>
     = \<lparr>strand0 = \<lparr>refAlleleCount = 96, altAlleleCount = []\<rparr>,
        strand1 = \<lparr>refAlleleCount = 36, altAlleleCount = [(30, 1)]\<rparr>\<rparr>"
proof -
  have e: "emptyStrandLeast strandLessModel"
    by (simp add: emptyStrandLeast_def leastEmpty_model)
  show ?thesis
    using addObservation_pattern [OF quantizer_model e,
        of "\<lparr>refQuals = ([(30, 20), (35, 17)], [(30, 63)]), altQuals = ([], [])\<rparr>"]
      addObservation_pattern [OF quantizer_model e,
        of "\<lparr>refQuals = ([(30, 37)], [(30, 100)]), altQuals = ([(30, 1)], [])\<rparr>"]
      quantizer_model e
    by (simp add: sumCounts_def compressIntModel_values Let_def
        StrandBasecallCounts_compressCounts_def addObservation_compressedObs_def
        compressCounts_def strandLessModel_def)
qed

subsection \<open>Ordered maps and sets\<close>

text \<open>
  The invariant of a \<^verbatim>\<open>std::map\<close> (strictly increasing keys) and the two container
  operations the code uses besides \<^verbatim>\<open>find\<close>: storing a value under a key, which inserts
  a new entry at its place in the key order or replaces the value of an existing one
  (\<^verbatim>\<open>insert\<close> of an absent key, \<^verbatim>\<open>m[key] = val\<close>, an update through an iterator), and
  \<^verbatim>\<open>std::set::insert\<close> on a set kept as the list of its elements in increasing order.
  The key types of the maps keyed by contexts and by patterns are type parameters of class
  \<open>linorder\<close>: their comparison operators are declared outside the sources.
\<close>

definition keysOrdered :: "('k::linorder, 'v) stdmap \<Rightarrow> bool" where
  "keysOrdered m \<longleftrightarrow> sorted_wrt (<) (map fst m)"

fun mapSet :: "'k::linorder \<Rightarrow> 'v \<Rightarrow> ('k, 'v) stdmap \<Rightarrow> ('k, 'v) stdmap" where
  "mapSet key val [] = [(key, val)]"
| "mapSet key val (entry # m) =
     (if key < fst entry then (key, val) # entry # m
      else if fst entry < key then entry # mapSet key val m
      else (key, val) # m)"

fun setInsert :: "'a::linorder \<Rightarrow> 'a list \<Rightarrow> 'a list" where
  "setInsert x [] = [x]"
| "setInsert x (y # ys) =
     (if x < y then x # y # ys else if y < x then y # setInsert x ys else y # ys)"

subsection \<open>Aggregated statistics of a context\<close>

record 'pattern BasecallErrorContextObservationData =
  data :: "('pattern, 64 word) stdmap"
  refAlleleBasecallErrorPhredProbs :: "(16 word, 64 word) stdmap"

subsection \<open>Export: \<^verbatim>\<open>getExportData\<close>\<close>

text \<open>
  The exported records. Their fields \<^verbatim>\<open>refAlleleCount\<close>, \<^verbatim>\<open>altAlleleCount\<close>,
  \<^verbatim>\<open>strand0\<close> and \<^verbatim>\<open>strand1\<close> carry the prefix \<open>export\<close> here. The exported
  \<^verbatim>\<open>observations\<close> map is only searched and stored into; its entries are listed in the
  order they are stored, the comparison operator of its keys being declared outside the
  sources.
\<close>

record BasecallErrorContextObservationExportStrandObservation =
  exportRefAlleleCount :: "32 word"
  exportAltAlleleCount :: "32 word list"

record BasecallErrorContextObservationExportObservation =
  exportStrand0 :: BasecallErrorContextObservationExportStrandObservation
  exportStrand1 :: BasecallErrorContextObservationExportStrandObservation

record BasecallErrorContextObservationExportData =
  altAlleleBasecallErrorPhredProbLevels :: "16 word list"
  refCount :: "64 word list"
  observations :: "(BasecallErrorContextObservationExportObservation \<times> 64 word) list"

text \<open>
  \<^verbatim>\<open>getExportData\<close>, loop by loop: the set of levels taken from the reference-allele
  counts (\<open>exportLevelSet\<close>); the index of each level and the exported level list
  (\<open>indexLevels\<close>); the conversion of one strand by the lambda \<^verbatim>\<open>strand2ExportStrand\<close>,
  whose loop over the alt counts is \<open>fillAltAlleleCount\<close>; and the loop over the
  aggregated patterns (\<open>exportObservations\<close>). The expression
  \<^verbatim>\<open>qualIndex.find(qualCount.first)->second\<close> dereferences the result of \<^verbatim>\<open>find\<close>
  unchecked: at a level that is not a key of \<^verbatim>\<open>qualIndex\<close> it is undefined behaviour,
  as is a store beyond the end of the vector.
\<close>

definition exportLevelSet :: "(16 word, 64 word) stdmap \<Rightarrow> 16 word list" where
  "exportLevelSet refProbs = fold (\<lambda>keyVal quals. setInsert (fst keyVal) quals) refProbs []"

definition indexLevels :: "16 word list \<Rightarrow> (16 word, 32 word) stdmap \<times> 16 word list" where
  "indexLevels quals =
     fold (\<lambda>qual (qualIndex, levels). (mapSet qual (of_nat (length levels)) qualIndex, levels @ [qual]))
       quals ([], [])"

fun fillAltAlleleCount ::
  "(16 word, 32 word) stdmap \<Rightarrow> qual_count_t \<Rightarrow> 32 word list \<Rightarrow> error + 32 word list"
where
  "fillAltAlleleCount qualIndex [] counts = Inr counts"
| "fillAltAlleleCount qualIndex (qualCount # rest) counts =
     (case map_of qualIndex (fst qualCount) of
        None \<Rightarrow> Inl UndefinedBehaviour
      | Some i \<Rightarrow>
          if unat i < length counts
          then fillAltAlleleCount qualIndex rest (counts[unat i := snd qualCount])
          else Inl UndefinedBehaviour)"

definition strand2ExportStrand ::
  "(16 word, 32 word) stdmap \<Rightarrow> nat \<Rightarrow> StrandBasecallCounts \<Rightarrow>
   error + BasecallErrorContextObservationExportStrandObservation"
where
  "strand2ExportStrand qualIndex levelCount si =
     (case fillAltAlleleCount qualIndex (altAlleleCount si) (replicate levelCount 0) of
        Inl e \<Rightarrow> Inl e
      | Inr counts \<Rightarrow>
          Inr \<lparr>exportRefAlleleCount = refAlleleCount si, exportAltAlleleCount = counts\<rparr>)"

fun exportObservations ::
  "(16 word, 32 word) stdmap \<Rightarrow> nat \<Rightarrow> (BasecallErrorContextObservation, 64 word) stdmap \<Rightarrow>
   (BasecallErrorContextObservationExportObservation \<times> 64 word) list \<Rightarrow>
   error + (BasecallErrorContextObservationExportObservation \<times> 64 word) list"
where
  "exportObservations qualIndex levelCount [] obs = Inr obs"
| "exportObservations qualIndex levelCount (keyVal # rest) obs =
     (case strand2ExportStrand qualIndex levelCount (strand0 (fst keyVal)) of
        Inl e \<Rightarrow> Inl e
      | Inr s0 \<Rightarrow>
          (case strand2ExportStrand qualIndex levelCount (strand1 (fst keyVal)) of
             Inl e \<Rightarrow> Inl e
           | Inr s1 \<Rightarrow>
               if \<not> map_of obs \<lparr>exportStrand0 = s0, exportStrand1 = s1\<rparr> = None
               then Inl AssertionFailure
               else exportObservations qualIndex levelCount rest
                      (obs @ [(\<lparr>exportStrand0 = s0, exportStrand1 = s1\<rparr>, snd keyVal)])))"

definition getExportData ::
  "BasecallErrorContextObservation BasecallErrorContextObservationData \<Rightarrow>
   error + BasecallErrorContextObservationExportData"
where
  "getExportData d =
     (let basecallErrorPhredProbs = exportLevelSet (refAlleleBasecallErrorPhredProbs d);
          (qualIndex, levels) = indexLevels basecallErrorPhredProbs;
          refCounts = map (\<lambda>qual. case map_of (refAlleleBasecallErrorPhredProbs d) qual of
                                     None \<Rightarrow> 0 | Some n \<Rightarrow> n) levels
      in case exportObservations qualIndex (length basecallErrorPhredProbs) (data d) [] of
           Inl e \<Rightarrow> Inl e
         | Inr obs \<Rightarrow>
             Inr \<lparr>altAlleleBasecallErrorPhredProbLevels = levels, refCount = refCounts,
                  observations = obs\<rparr>)"

text \<open>
  The vocabulary of the claim: the quality levels in the alt counts of a pattern, the
  levels among the reference-allele counts of the context, and the precondition that the
  latter cover the former for every aggregated pattern.
\<close>

definition altLevels :: "BasecallErrorContextObservation \<Rightarrow> 16 word set" where
  "altLevels p =
     fst ` set (altAlleleCount (strand0 p)) \<union> fst ` set (altAlleleCount (strand1 p))"

definition refLevels :: "'p BasecallErrorContextObservationData \<Rightarrow> 16 word set" where
  "refLevels d = fst ` set (refAlleleBasecallErrorPhredProbs d)"

definition altLevelsCovered ::
  "BasecallErrorContextObservation BasecallErrorContextObservationData \<Rightarrow> bool" where
  "altLevelsCovered d \<longleftrightarrow> (\<forall>keyVal \<in> set (data d). altLevels (fst keyVal) \<subseteq> refLevels d)"

lemma set_setInsert: "set (setInsert x xs) = insert x (set xs)"
  by (induction xs) auto

lemma setInsert_greatest: "\<forall>y \<in> set xs. y < x \<Longrightarrow> setInsert x xs = xs @ [x]"
  by (induction xs) auto

lemma fold_setInsert_set:
  "set (fold (\<lambda>keyVal quals. setInsert (fst keyVal) quals) m acc) = fst ` set m \<union> set acc"
  by (induction m arbitrary: acc) (auto simp: set_setInsert)

lemma fold_setInsert_sorted:
  "sorted_wrt (<) (acc @ map fst m) \<Longrightarrow>
   fold (\<lambda>keyVal quals. setInsert (fst keyVal) quals) m acc = acc @ map fst m"
proof (induction m arbitrary: acc)
  case Nil
  then show ?case by simp
next
  case (Cons e m)
  have "\<forall>y \<in> set acc. y < fst e" using Cons.prems by (auto simp: sorted_wrt_append)
  then have "setInsert (fst e) acc = acc @ [fst e]" by (rule setInsert_greatest)
  then show ?case using Cons.IH [of "acc @ [fst e]"] Cons.prems by simp
qed

lemma set_exportLevelSet: "set (exportLevelSet m) = fst ` set m"
  by (simp add: exportLevelSet_def fold_setInsert_set)

lemma exportLevelSet_ordered: "keysOrdered m \<Longrightarrow> exportLevelSet m = map fst m"
  using fold_setInsert_sorted [of "[]" m] by (simp add: exportLevelSet_def keysOrdered_def)

lemma keys_mapSet: "fst ` set (mapSet k v m) = insert k (fst ` set m)"
  by (induction m) auto

lemma vals_mapSet: "snd ` set (mapSet k v m) \<subseteq> insert v (snd ` set m)"
  by (induction m) auto

definition indexed :: "(16 word, 32 word) stdmap \<times> 16 word list \<Rightarrow> 16 word list \<Rightarrow> bool" where
  "indexed st seen \<longleftrightarrow>
     snd st = seen \<and> fst ` set (fst st) = set seen \<and> (\<forall>i \<in> snd ` set (fst st). unat i < length seen)"

lemma unat_of_nat_le: "unat (of_nat n :: 32 word) \<le> n"
  by (simp add: unat_of_nat)

lemma indexed_step:
  assumes "indexed (qualIndex, levels) seen"
  shows "indexed (mapSet qual (of_nat (length levels)) qualIndex, levels @ [qual]) (seen @ [qual])"
proof -
  have l: "levels = seen" and k: "fst ` set qualIndex = set seen"
    and v: "\<forall>i \<in> snd ` set qualIndex. unat i < length seen"
    using assms by (simp_all add: indexed_def)
  have "unat i < length (seen @ [qual])"
    if "i \<in> snd ` set (mapSet qual (of_nat (length levels)) qualIndex)" for i
  proof -
    from that vals_mapSet [of qual "of_nat (length levels)" qualIndex]
    have "i = of_nat (length levels) \<or> i \<in> snd ` set qualIndex" by blast
    then show ?thesis
    proof
      assume "i = of_nat (length levels)"
      then show ?thesis using unat_of_nat_le [of "length levels"] l by simp
    next
      assume "i \<in> snd ` set qualIndex"
      then have "unat i < length seen" using v by blast
      then show ?thesis by simp
    qed
  qed
  then show ?thesis using l k by (simp add: indexed_def keys_mapSet)
qed

lemma indexed_fold:
  "indexed st seen \<Longrightarrow>
   indexed (fold (\<lambda>qual (qualIndex, levels).
                    (mapSet qual (of_nat (length levels)) qualIndex, levels @ [qual])) quals st)
           (seen @ quals)"
proof (induction quals arbitrary: st seen)
  case Nil
  then show ?case by simp
next
  case (Cons q quals)
  obtain qi lv where st: "st = (qi, lv)" by (cases st)
  have "indexed (mapSet q (of_nat (length lv)) qi, lv @ [q]) (seen @ [q])"
    using Cons.prems indexed_step unfolding st by blast
  from Cons.IH [OF this] show ?case by (simp add: st)
qed

lemma indexLevels_indexed: "indexed (indexLevels quals) quals"
  using indexed_fold [of "([], [])" "[]" quals] by (simp add: indexLevels_def indexed_def)

lemma fill_Inr_keys:
  "fillAltAlleleCount qualIndex alt counts = Inr counts' \<Longrightarrow>
   fst ` set alt \<subseteq> fst ` set qualIndex \<and> length counts' = length counts"
proof (induction alt arbitrary: counts)
  case Nil
  then show ?case by simp
next
  case (Cons qc alt)
  from Cons.prems obtain i where i: "map_of qualIndex (fst qc) = Some i"
    and b: "unat i < length counts"
    and r: "fillAltAlleleCount qualIndex alt (counts[unat i := snd qc]) = Inr counts'"
    by (auto split: option.splits if_splits)
  have "fst qc \<in> fst ` set qualIndex" using i by (metis map_of_eq_None_iff option.distinct(1))
  then show ?case using Cons.IH [OF r] by simp
qed

lemma fill_covered:
  assumes "fst ` set alt \<subseteq> fst ` set qualIndex"
    and "\<forall>i \<in> snd ` set qualIndex. unat i < length counts"
  shows "\<exists>counts'. fillAltAlleleCount qualIndex alt counts = Inr counts'"
  using assms
proof (induction alt arbitrary: counts)
  case Nil
  then show ?case by simp
next
  case (Cons qc alt)
  have "fst qc \<in> fst ` set qualIndex" using Cons.prems(1) by simp
  then obtain i where i: "map_of qualIndex (fst qc) = Some i"
    by (metis map_of_eq_None_iff not_Some_eq)
  then have "i \<in> snd ` set qualIndex" by (metis map_of_SomeD snd_conv image_eqI)
  then have b: "unat i < length counts" using Cons.prems(2) by blast
  have "\<exists>counts'. fillAltAlleleCount qualIndex alt (counts[unat i := snd qc]) = Inr counts'"
    using Cons.prems by (intro Cons.IH) simp_all
  then show ?case using i b by simp
qed

lemma strand2Export_Inr_keys:
  "strand2ExportStrand qualIndex n si = Inr se \<Longrightarrow>
   fst ` set (altAlleleCount si) \<subseteq> fst ` set qualIndex"
  using fill_Inr_keys [of qualIndex "altAlleleCount si" "replicate n 0"]
  by (auto simp: strand2ExportStrand_def split: sum.splits)

lemma strand2Export_covered:
  assumes "fst ` set (altAlleleCount si) \<subseteq> fst ` set qualIndex"
    and "\<forall>i \<in> snd ` set qualIndex. unat i < n"
  shows "\<exists>se. strand2ExportStrand qualIndex n si = Inr se"
proof -
  obtain counts' where
    "fillAltAlleleCount qualIndex (altAlleleCount si) (replicate n 0) = Inr counts'"
    using fill_covered [OF assms(1), of "replicate n 0"] assms(2) by auto
  then show ?thesis by (simp add: strand2ExportStrand_def)
qed

lemma exportObservations_Inr_keys:
  "exportObservations qualIndex n ds obs = Inr r \<Longrightarrow>
   \<forall>keyVal \<in> set ds. altLevels (fst keyVal) \<subseteq> fst ` set qualIndex"
proof (induction ds arbitrary: obs)
  case Nil
  then show ?case by simp
next
  case (Cons kv ds)
  from Cons.prems obtain s0 s1 where
    s0: "strand2ExportStrand qualIndex n (strand0 (fst kv)) = Inr s0" and
    s1: "strand2ExportStrand qualIndex n (strand1 (fst kv)) = Inr s1" and
    r: "exportObservations qualIndex n ds
          (obs @ [(\<lparr>exportStrand0 = s0, exportStrand1 = s1\<rparr>, snd kv)]) = Inr r"
    by (auto split: sum.splits if_splits)
  have "altLevels (fst kv) \<subseteq> fst ` set qualIndex"
    using strand2Export_Inr_keys [OF s0] strand2Export_Inr_keys [OF s1]
    by (simp add: altLevels_def)
  then show ?case using Cons.IH [OF r] by simp
qed

lemma exportObservations_covered:
  assumes "\<forall>keyVal \<in> set ds. altLevels (fst keyVal) \<subseteq> fst ` set qualIndex"
    and "\<forall>i \<in> snd ` set qualIndex. unat i < n"
  shows "exportObservations qualIndex n ds obs \<noteq> Inl UndefinedBehaviour"
  using assms(1)
proof (induction ds arbitrary: obs)
  case Nil
  then show ?case by simp
next
  case (Cons kv ds)
  have k: "fst ` set (altAlleleCount (strand0 (fst kv))) \<subseteq> fst ` set qualIndex"
      "fst ` set (altAlleleCount (strand1 (fst kv))) \<subseteq> fst ` set qualIndex"
    using Cons.prems by (simp_all add: altLevels_def)
  obtain s0 where s0: "strand2ExportStrand qualIndex n (strand0 (fst kv)) = Inr s0"
    using strand2Export_covered [OF k(1) assms(2)] by blast
  obtain s1 where s1: "strand2ExportStrand qualIndex n (strand1 (fst kv)) = Inr s1"
    using strand2Export_covered [OF k(2) assms(2)] by blast
  have "exportObservations qualIndex n ds
          (obs @ [(\<lparr>exportStrand0 = s0, exportStrand1 = s1\<rparr>, snd kv)]) \<noteq> Inl UndefinedBehaviour"
    using Cons.prems by (intro Cons.IH) simp
  then show ?case by (simp add: s0 s1)
qed

lemma getExportData_Inr:
  assumes "getExportData d = Inr e"
  shows "altLevelsCovered d"
    and "altAlleleBasecallErrorPhredProbLevels e = exportLevelSet (refAlleleBasecallErrorPhredProbs d)"
proof -
  let ?quals = "exportLevelSet (refAlleleBasecallErrorPhredProbs d)"
  obtain qi lv where il: "indexLevels ?quals = (qi, lv)" by (cases "indexLevels ?quals")
  have ix: "indexed (qi, lv) ?quals" using indexLevels_indexed [of ?quals] il by simp
  from assms obtain obs where
    o: "exportObservations qi (length ?quals) (data d) [] = Inr obs" and
    e: "e = \<lparr>altAlleleBasecallErrorPhredProbLevels = lv,
             refCount = map (\<lambda>qual. case map_of (refAlleleBasecallErrorPhredProbs d) qual of
                                     None \<Rightarrow> 0 | Some n \<Rightarrow> n) lv,
             observations = obs\<rparr>"
    by (auto simp: getExportData_def Let_def il split: sum.splits)
  have keys: "fst ` set qi = refLevels d"
    using ix by (simp add: indexed_def set_exportLevelSet refLevels_def)
  show "altLevelsCovered d"
    using exportObservations_Inr_keys [OF o] keys by (simp add: altLevelsCovered_def)
  show "altAlleleBasecallErrorPhredProbLevels e = ?quals"
    using ix e by (simp add: indexed_def)
qed

lemma getExportData_covered:
  assumes "altLevelsCovered d"
  shows "getExportData d \<noteq> Inl UndefinedBehaviour"
proof -
  let ?quals = "exportLevelSet (refAlleleBasecallErrorPhredProbs d)"
  obtain qi lv where il: "indexLevels ?quals = (qi, lv)" by (cases "indexLevels ?quals")
  have ix: "indexed (qi, lv) ?quals" using indexLevels_indexed [of ?quals] il by simp
  have keys: "fst ` set qi = refLevels d"
    using ix by (simp add: indexed_def set_exportLevelSet refLevels_def)
  have vals: "\<forall>i \<in> snd ` set qi. unat i < length ?quals"
    using ix by (simp add: indexed_def)
  have "exportObservations qi (length ?quals) (data d) [] \<noteq> Inl UndefinedBehaviour"
    using assms keys by (intro exportObservations_covered [OF _ vals]) (simp add: altLevelsCovered_def)
  then show ?thesis
    by (auto simp: getExportData_def Let_def il split: sum.splits)
qed

text \<open>
  C10. If \<open>getExportData\<close> returns export data, then every quality level in the alt counts
  of every aggregated pattern occurs among the reference-allele quality counts of the
  context, and the exported level list consists of exactly the reference-allele levels (it is
  the list of their keys when these are in key order, as in a \<^verbatim>\<open>std::map\<close>). Under that
  precondition the unchecked lookup is never undefined; without it the export does not
  return export data.
\<close>

theorem getExportData_alt_levels:
  "(\<forall>e. getExportData d = Inr e \<longrightarrow>
        altLevelsCovered d
      \<and> set (altAlleleBasecallErrorPhredProbLevels e) = refLevels d
      \<and> (keysOrdered (refAlleleBasecallErrorPhredProbs d) \<longrightarrow>
           altAlleleBasecallErrorPhredProbLevels e = map fst (refAlleleBasecallErrorPhredProbs d)))
   \<and> (altLevelsCovered d \<longrightarrow> getExportData d \<noteq> Inl UndefinedBehaviour)
   \<and> (\<not> altLevelsCovered d \<longrightarrow> (\<exists>err. getExportData d = Inl err))"
proof -
  have a: "altLevelsCovered d
      \<and> set (altAlleleBasecallErrorPhredProbLevels e) = refLevels d
      \<and> (keysOrdered (refAlleleBasecallErrorPhredProbs d) \<longrightarrow>
           altAlleleBasecallErrorPhredProbLevels e = map fst (refAlleleBasecallErrorPhredProbs d))"
    if "getExportData d = Inr e" for e
    using getExportData_Inr [OF that]
    by (simp add: set_exportLevelSet refLevels_def exportLevelSet_ordered)
  have c: "\<exists>err. getExportData d = Inl err" if "\<not> altLevelsCovered d"
  proof (cases "getExportData d")
    case (Inl err)
    then show ?thesis by blast
  next
    case (Inr e)
    then show ?thesis using getExportData_Inr(1) that by blast
  qed
  show ?thesis using a c getExportData_covered by blast
qed

text \<open>
  An aggregate with one pattern whose only alt level is the argument, over reference levels
  30 and 35.
\<close>

definition exportExample ::
  "16 word \<Rightarrow> BasecallErrorContextObservation BasecallErrorContextObservationData" where
  "exportExample altLevel =
     \<lparr>data = [(\<lparr>strand0 = \<lparr>refAlleleCount = 96, altAlleleCount = []\<rparr>,
                 strand1 = \<lparr>refAlleleCount = 36, altAlleleCount = [(altLevel, 1)]\<rparr>\<rparr>, 3)],
      refAlleleBasecallErrorPhredProbs = [(30, 7), (35, 2)]\<rparr>"

lemmas export_unfold =
  getExportData_def exportExample_def exportLevelSet_def indexLevels_def Let_def
  strand2ExportStrand_def

lemma export_good:
  "getExportData (exportExample 35) =
     Inr \<lparr>altAlleleBasecallErrorPhredProbLevels = [30, 35], refCount = [7, 2],
          observations =
            [(\<lparr>exportStrand0 = \<lparr>exportRefAlleleCount = 96, exportAltAlleleCount = [0, 0]\<rparr>,
               exportStrand1 = \<lparr>exportRefAlleleCount = 36, exportAltAlleleCount = [0, 1]\<rparr>\<rparr>, 3)]\<rparr>"
  by (simp add: export_unfold)

lemma export_bad: "getExportData (exportExample 20) = Inl UndefinedBehaviour"
  by (simp add: export_unfold)

theorem getExportData_alt_levels_witness:
  "getExportData (exportExample 35) =
     Inr \<lparr>altAlleleBasecallErrorPhredProbLevels = [30, 35], refCount = [7, 2],
          observations =
            [(\<lparr>exportStrand0 = \<lparr>exportRefAlleleCount = 96, exportAltAlleleCount = [0, 0]\<rparr>,
               exportStrand1 = \<lparr>exportRefAlleleCount = 36, exportAltAlleleCount = [0, 1]\<rparr>\<rparr>, 3)]\<rparr>
   \<and> altLevelsCovered (exportExample 35)
   \<and> getExportData (exportExample 20) = Inl UndefinedBehaviour
   \<and> \<not> altLevelsCovered (exportExample 20)"
proof -
  note good = getExportData_alt_levels [of "exportExample 35"]
  note bad = getExportData_alt_levels [of "exportExample 20"]
  have c: "altLevelsCovered (exportExample 35)"
    using good export_good by blast
  have n: "\<not> altLevelsCovered (exportExample 20)"
    using bad export_bad by blast
  show ?thesis by (intro conjI export_good export_bad c n)
qed

subsection \<open>Merging: \<^verbatim>\<open>merge\<close>\<close>

text \<open>
  Modelled from the spec: \<^verbatim>\<open>mergeMapKeys\<close> is declared in \<^verbatim>\<open>errorAnalysisUtils.hh\<close>,
  outside the sources. By the specification a merge adds the counts of the first map into
  the second, key by key, and a key absent from the second is treated as a zero count: its
  entry is inserted with the count of the first.
\<close>

definition mergeMapKeys :: "('k::linorder, 'v::plus) stdmap \<Rightarrow> ('k, 'v) stdmap \<Rightarrow> ('k, 'v) stdmap" where
  "mergeMapKeys m1 m2 =
     fold (\<lambda>mv1 m. case map_of m (fst mv1) of
                      None \<Rightarrow> mapSet (fst mv1) (snd mv1) m
                    | Some v \<Rightarrow> mapSet (fst mv1) (v + snd mv1) m)
       m1 m2"

text \<open>
  The three \<^verbatim>\<open>merge\<close> functions of the source, each returning the updated \<open>this\<close>:
  of the statistics of a context, of the data of a context with its four skip counters, and
  of the aggregator, whose member \<^verbatim>\<open>_data\<close> is the map from contexts to their data.
\<close>

definition BasecallErrorContextObservationData_merge ::
  "('p::linorder) BasecallErrorContextObservationData \<Rightarrow> 'p BasecallErrorContextObservationData \<Rightarrow>
   'p BasecallErrorContextObservationData"
where
  "BasecallErrorContextObservationData_merge this input =
     this\<lparr>data := mergeMapKeys (data input) (data this),
          refAlleleBasecallErrorPhredProbs :=
            mergeMapKeys (refAlleleBasecallErrorPhredProbs input)
              (refAlleleBasecallErrorPhredProbs this)\<rparr>"

record 'pattern BasecallErrorData =
  counts :: "'pattern BasecallErrorContextObservationData"
  excludedRegionSkipped :: "64 word"
  depthSkipped :: "64 word"
  emptySkipped :: "64 word"
  noiseSkipped :: "64 word"

definition BasecallErrorData_merge ::
  "('p::linorder) BasecallErrorData \<Rightarrow> 'p BasecallErrorData \<Rightarrow> 'p BasecallErrorData"
where
  "BasecallErrorData_merge this input =
     this\<lparr>counts := BasecallErrorContextObservationData_merge (counts this) (counts input),
          excludedRegionSkipped := excludedRegionSkipped this + excludedRegionSkipped input,
          depthSkipped := depthSkipped this + depthSkipped input,
          emptySkipped := emptySkipped this + emptySkipped input,
          noiseSkipped := noiseSkipped this + noiseSkipped input\<rparr>"

type_synonym ('context, 'pattern) BasecallErrorCounts =
  "('context, 'pattern BasecallErrorData) stdmap"

definition BasecallErrorCounts_merge ::
  "('c::linorder, 'p::linorder) BasecallErrorCounts \<Rightarrow> ('c, 'p) BasecallErrorCounts \<Rightarrow>
   ('c, 'p) BasecallErrorCounts"
where
  "BasecallErrorCounts_merge this input =
     fold (\<lambda>idata m. case map_of m (fst idata) of
                        None \<Rightarrow> mapSet (fst idata) (snd idata) m
                      | Some d \<Rightarrow> mapSet (fst idata) (BasecallErrorData_merge d (snd idata)) m)
       input this"

text \<open>
  Well-formed aggregator states: every map in them has its keys in key order. The count of
  a key in a map of counts is zero when the key is absent.
\<close>

definition wfObservationData :: "('p::linorder) BasecallErrorContextObservationData \<Rightarrow> bool" where
  "wfObservationData d \<longleftrightarrow>
     keysOrdered (data d) \<and> keysOrdered (refAlleleBasecallErrorPhredProbs d)"

definition wfCounts :: "('c::linorder, 'p::linorder) BasecallErrorCounts \<Rightarrow> bool" where
  "wfCounts m \<longleftrightarrow> keysOrdered m \<and> (\<forall>d \<in> snd ` set m. wfObservationData (counts d))"

definition countOf :: "('k, 'v::zero) stdmap \<Rightarrow> 'k \<Rightarrow> 'v" where
  "countOf m k = (case map_of m k of None \<Rightarrow> 0 | Some n \<Rightarrow> n)"

text \<open>
  Both loops have the same shape; \<open>mergeWith\<close> is that shape for a merge \<open>f\<close> of two
  values, and \<open>combine\<close> what it computes at one key.
\<close>

definition mergeWith ::
  "('v \<Rightarrow> 'v \<Rightarrow> 'v) \<Rightarrow> ('k::linorder, 'v) stdmap \<Rightarrow> ('k, 'v) stdmap \<Rightarrow> ('k, 'v) stdmap" where
  "mergeWith f this input =
     fold (\<lambda>e m. case map_of m (fst e) of
                    None \<Rightarrow> mapSet (fst e) (snd e) m
                  | Some v \<Rightarrow> mapSet (fst e) (f v (snd e)) m)
       input this"

definition combine :: "('v \<Rightarrow> 'v \<Rightarrow> 'v) \<Rightarrow> 'v option \<Rightarrow> 'v option \<Rightarrow> 'v option" where
  "combine f a b =
     (case b of None \<Rightarrow> a | Some y \<Rightarrow> (case a of None \<Rightarrow> Some y | Some x \<Rightarrow> Some (f x y)))"

lemma mergeMapKeys_mergeWith: "mergeMapKeys m1 m2 = mergeWith (+) m2 m1"
  by (simp add: mergeMapKeys_def mergeWith_def)

lemma BasecallErrorCounts_merge_mergeWith:
  "BasecallErrorCounts_merge this input = mergeWith BasecallErrorData_merge this input"
  by (simp add: BasecallErrorCounts_merge_def mergeWith_def)

lemma map_of_mapSet: "map_of (mapSet k v m) = (map_of m)(k \<mapsto> v)"
  by (induction m) (auto simp: fun_eq_iff)

lemma keysOrdered_mapSet: "keysOrdered m \<Longrightarrow> keysOrdered (mapSet k v m)"
proof (induction m)
  case Nil
  then show ?case by (simp add: keysOrdered_def)
next
  case (Cons e m)
  have tail: "keysOrdered m" using Cons.prems by (simp add: keysOrdered_def)
  have above: "\<forall>x \<in> fst ` set m. fst e < x" using Cons.prems by (auto simp: keysOrdered_def)
  show ?case
  proof (cases "k < fst e")
    case True
    then show ?thesis using Cons.prems above by (auto simp: keysOrdered_def)
  next
    case False
    show ?thesis
    proof (cases "fst e < k")
      case True
      have "\<forall>x \<in> fst ` set (mapSet k v m). fst e < x"
        using above True by (simp add: keys_mapSet)
      then show ?thesis
        using True False Cons.IH [OF tail] by (auto simp: keysOrdered_def)
    next
      case F: False
      then have "k = fst e" using False by simp
      then show ?thesis using Cons.prems by (auto simp: keysOrdered_def)
    qed
  qed
qed

lemma keysOrdered_distinct: "keysOrdered m \<Longrightarrow> distinct (map fst m)"
  by (simp add: keysOrdered_def strict_sorted_iff)

lemma keysOrdered_mergeWith: "keysOrdered this \<Longrightarrow> keysOrdered (mergeWith f this input)"
proof (induction input arbitrary: this)
  case Nil
  then show ?case by (simp add: mergeWith_def)
next
  case (Cons e input)
  let ?step = "case map_of this (fst e) of
                 None \<Rightarrow> mapSet (fst e) (snd e) this
               | Some v \<Rightarrow> mapSet (fst e) (f v (snd e)) this"
  have "keysOrdered ?step"
    using Cons.prems by (simp add: keysOrdered_mapSet split: option.splits)
  from Cons.IH [OF this] show ?case by (simp add: mergeWith_def)
qed

lemma map_of_mergeWith:
  "distinct (map fst input) \<Longrightarrow>
   map_of (mergeWith f this input) k = combine f (map_of this k) (map_of input k)"
proof (induction input arbitrary: this)
  case Nil
  then show ?case by (simp add: mergeWith_def combine_def)
next
  case (Cons e input)
  let ?step = "case map_of this (fst e) of
                 None \<Rightarrow> mapSet (fst e) (snd e) this
               | Some v \<Rightarrow> mapSet (fst e) (f v (snd e)) this"
  have d: "distinct (map fst input)" and n: "fst e \<notin> fst ` set input"
    using Cons.prems by simp_all
  have unfold: "mergeWith f this (e # input) = mergeWith f ?step input"
    by (simp add: mergeWith_def)
  have ih: "map_of (mergeWith f ?step input) k = combine f (map_of ?step k) (map_of input k)"
    by (rule Cons.IH [OF d])
  show ?case
  proof (cases "k = fst e")
    case True
    have "map_of input k = None" using n True by (simp add: map_of_eq_None_iff)
    then show ?thesis
      unfolding unfold ih using True
      by (cases e) (simp add: combine_def map_of_mapSet split: option.splits)
  next
    case False
    then show ?thesis
      unfolding unfold ih
      by (cases e) (simp add: combine_def map_of_mapSet split: option.splits)
  qed
qed

lemma entries_from_map_of:
  assumes "distinct (map fst m)"
  shows "map (\<lambda>k. (k, the (map_of m k))) (map fst m) = m"
proof -
  have "(fst x, the (map_of m (fst x))) = x" if "x \<in> set m" for x
  proof -
    have "(fst x, snd x) \<in> set m" using that by simp
    then have "map_of m (fst x) = Some (snd x)" using assms by (rule map_of_is_SomeI [rotated])
    then show ?thesis by simp
  qed
  then have "map (\<lambda>x. (fst x, the (map_of m (fst x)))) m = m"
    by (intro map_idI)
  then show ?thesis by (simp add: comp_def)
qed

lemma stdmap_eqI:
  assumes "keysOrdered a" "keysOrdered b" "map_of a = map_of b"
  shows "a = b"
proof -
  have "set (map fst a) = set (map fst b)"
    using assms(3) dom_map_of_conv_image_fst [of a] dom_map_of_conv_image_fst [of b] by simp
  then have k: "map fst a = map fst b"
    using assms(1,2)
    by (intro sorted_distinct_set_unique) (simp_all add: keysOrdered_def strict_sorted_iff)
  have "a = map (\<lambda>k. (k, the (map_of a k))) (map fst a)"
    using entries_from_map_of [OF keysOrdered_distinct [OF assms(1)]] by simp
  also have "\<dots> = map (\<lambda>k. (k, the (map_of b k))) (map fst b)"
    using k assms(3) by simp
  also have "\<dots> = b"
    using entries_from_map_of [OF keysOrdered_distinct [OF assms(2)]] by simp
  finally show ?thesis .
qed

lemma map_of_value:
  "map_of m k = Some v \<Longrightarrow> v \<in> snd ` set m"
  by (metis map_of_SomeD snd_conv image_eqI)

lemma value_map_of:
  "keysOrdered m \<Longrightarrow> v \<in> snd ` set m \<Longrightarrow> \<exists>k. map_of m k = Some v"
  using keysOrdered_distinct by fastforce

definition wfMap :: "('v \<Rightarrow> bool) \<Rightarrow> ('k::linorder, 'v) stdmap \<Rightarrow> bool" where
  "wfMap P m \<longleftrightarrow> keysOrdered m \<and> (\<forall>v \<in> snd ` set m. P v)"

lemma wfMap_mergeWith:
  assumes a: "wfMap P a" and b: "wfMap P b"
    and closed: "\<And>x y. P x \<Longrightarrow> P y \<Longrightarrow> P (f x y)"
  shows "wfMap P (mergeWith f a b)"
proof -
  have ko: "keysOrdered (mergeWith f a b)"
    using a by (simp add: wfMap_def keysOrdered_mergeWith)
  have "P v" if v: "v \<in> snd ` set (mergeWith f a b)" for v
  proof -
    obtain k where "map_of (mergeWith f a b) k = Some v"
      using value_map_of [OF ko v] by blast
    then have c: "combine f (map_of a k) (map_of b k) = Some v"
      using map_of_mergeWith [of b f a k] b by (simp add: wfMap_def keysOrdered_distinct)
    show ?thesis
    proof (cases "map_of b k")
      case None
      then have "map_of a k = Some v" using c by (simp add: combine_def)
      then show ?thesis using a map_of_value by (fastforce simp: wfMap_def)
    next
      case (Some y)
      then have py: "P y" using b map_of_value by (fastforce simp: wfMap_def)
      show ?thesis
      proof (cases "map_of a k")
        case None
        then show ?thesis using c Some py by (simp add: combine_def)
      next
        case (Some x)
        then have "P x" using a map_of_value by (fastforce simp: wfMap_def)
        then show ?thesis
          using c Some \<open>map_of b k = Some y\<close> py closed [of x y] by (auto simp add: combine_def)
      qed
    qed
  qed
  then show ?thesis using ko by (simp add: wfMap_def)
qed

lemma mergeWith_commute:
  assumes a: "wfMap P a" and b: "wfMap P b"
    and comm: "\<And>x y. P x \<Longrightarrow> P y \<Longrightarrow> f x y = f y x"
  shows "mergeWith f a b = mergeWith f b a"
proof (rule stdmap_eqI)
  show "keysOrdered (mergeWith f a b)" using a by (simp add: wfMap_def keysOrdered_mergeWith)
  show "keysOrdered (mergeWith f b a)" using b by (simp add: wfMap_def keysOrdered_mergeWith)
  show "map_of (mergeWith f a b) = map_of (mergeWith f b a)"
  proof
    fix k
    have l: "map_of (mergeWith f a b) k = combine f (map_of a k) (map_of b k)"
      using b by (simp add: map_of_mergeWith wfMap_def keysOrdered_distinct)
    have r: "map_of (mergeWith f b a) k = combine f (map_of b k) (map_of a k)"
      using a by (simp add: map_of_mergeWith wfMap_def keysOrdered_distinct)
    show "map_of (mergeWith f a b) k = map_of (mergeWith f b a) k"
    proof (cases "map_of a k")
      case None
      then show ?thesis unfolding l r by (simp add: combine_def split: option.splits)
    next
      case (Some x)
      then have px: "P x" using a map_of_value by (fastforce simp: wfMap_def)
      show ?thesis
      proof (cases "map_of b k")
        case None
        then show ?thesis unfolding l r using Some by (simp add: combine_def)
      next
        case (Some y)
        then have "P y" using b map_of_value by (fastforce simp: wfMap_def)
        then show ?thesis
          unfolding l r using Some \<open>map_of a k = Some x\<close> comm [OF px] by (simp add: combine_def)
      qed
    qed
  qed
qed

lemma mergeWith_assoc:
  assumes a: "wfMap P a" and b: "wfMap P b" and c: "wfMap P c"
    and closed: "\<And>x y. P x \<Longrightarrow> P y \<Longrightarrow> P (f x y)"
    and assoc: "\<And>x y z. P x \<Longrightarrow> P y \<Longrightarrow> P z \<Longrightarrow> f (f x y) z = f x (f y z)"
  shows "mergeWith f (mergeWith f a b) c = mergeWith f a (mergeWith f b c)"
proof (rule stdmap_eqI)
  have bc: "wfMap P (mergeWith f b c)" using wfMap_mergeWith [OF b c closed] .
  show "keysOrdered (mergeWith f (mergeWith f a b) c)"
    using a by (simp add: wfMap_def keysOrdered_mergeWith)
  show "keysOrdered (mergeWith f a (mergeWith f b c))"
    using a by (simp add: wfMap_def keysOrdered_mergeWith)
  show "map_of (mergeWith f (mergeWith f a b) c) = map_of (mergeWith f a (mergeWith f b c))"
  proof
    fix k
    have l: "map_of (mergeWith f (mergeWith f a b) c) k
             = combine f (combine f (map_of a k) (map_of b k)) (map_of c k)"
      using b c by (simp add: map_of_mergeWith wfMap_def keysOrdered_distinct)
    have r: "map_of (mergeWith f a (mergeWith f b c)) k
             = combine f (map_of a k) (combine f (map_of b k) (map_of c k))"
      using bc c by (simp add: map_of_mergeWith wfMap_def keysOrdered_distinct)
    have pa: "P x" if "map_of a k = Some x" for x
      using that a map_of_value by (fastforce simp: wfMap_def)
    have pb: "P x" if "map_of b k = Some x" for x
      using that b map_of_value by (fastforce simp: wfMap_def)
    have pc: "P x" if "map_of c k = Some x" for x
      using that c map_of_value by (fastforce simp: wfMap_def)
    show "map_of (mergeWith f (mergeWith f a b) c) k = map_of (mergeWith f a (mergeWith f b c)) k"
      unfolding l r using pa pb pc assoc
      by (cases "map_of a k"; cases "map_of b k"; cases "map_of c k") (simp_all add: combine_def)
  qed
qed

lemma wfMap_any: "wfMap (\<lambda>v. True) m \<longleftrightarrow> keysOrdered m"
  by (simp add: wfMap_def)

lemma mergeMapKeys_ordered: "keysOrdered m2 \<Longrightarrow> keysOrdered (mergeMapKeys m1 m2)"
  by (simp add: mergeMapKeys_mergeWith keysOrdered_mergeWith)

lemma mergeMapKeys_commute:
  fixes a b :: "('k::linorder, 'v::ab_semigroup_add) stdmap"
  assumes "keysOrdered a" "keysOrdered b"
  shows "mergeMapKeys a b = mergeMapKeys b a"
  unfolding mergeMapKeys_mergeWith
  by (rule mergeWith_commute [where P = "\<lambda>v. True"])
     (simp_all add: wfMap_any assms add.commute)

lemma mergeMapKeys_assoc:
  fixes a b c :: "('k::linorder, 'v::ab_semigroup_add) stdmap"
  assumes "keysOrdered a" "keysOrdered b" "keysOrdered c"
  shows "mergeMapKeys c (mergeMapKeys b a) = mergeMapKeys (mergeMapKeys c b) a"
  unfolding mergeMapKeys_mergeWith
  by (rule mergeWith_assoc [where P = "\<lambda>v. True"])
     (simp_all add: wfMap_any assms add.assoc)

lemma countOf_mergeMapKeys:
  fixes m1 m2 :: "('k::linorder, 'v::comm_monoid_add) stdmap"
  assumes "keysOrdered m1"
  shows "countOf (mergeMapKeys m1 m2) k = countOf m2 k + countOf m1 k"
  using map_of_mergeWith [OF keysOrdered_distinct [OF assms], of "(+)" m2 k]
  by (simp add: countOf_def mergeMapKeys_mergeWith combine_def split: option.splits)

lemma ObservationData_merge_fields:
  "BasecallErrorContextObservationData_merge this input =
     \<lparr>data = mergeMapKeys (data input) (data this),
      refAlleleBasecallErrorPhredProbs =
        mergeMapKeys (refAlleleBasecallErrorPhredProbs input)
          (refAlleleBasecallErrorPhredProbs this)\<rparr>"
  by (cases this) (simp add: BasecallErrorContextObservationData_merge_def)

lemma ObservationData_merge_wf:
  "wfObservationData a \<Longrightarrow> wfObservationData (BasecallErrorContextObservationData_merge a b)"
  by (simp add: wfObservationData_def ObservationData_merge_fields mergeMapKeys_ordered)

lemma ObservationData_merge_commute:
  assumes "wfObservationData a" "wfObservationData b"
  shows "BasecallErrorContextObservationData_merge a b
         = BasecallErrorContextObservationData_merge b a"
  using assms mergeMapKeys_commute [of "data b" "data a"]
    mergeMapKeys_commute [of "refAlleleBasecallErrorPhredProbs b" "refAlleleBasecallErrorPhredProbs a"]
  by (simp add: wfObservationData_def ObservationData_merge_fields)

lemma ObservationData_merge_assoc:
  assumes "wfObservationData a" "wfObservationData b" "wfObservationData c"
  shows "BasecallErrorContextObservationData_merge (BasecallErrorContextObservationData_merge a b) c
         = BasecallErrorContextObservationData_merge a (BasecallErrorContextObservationData_merge b c)"
  using assms mergeMapKeys_assoc [of "data a" "data b" "data c"]
    mergeMapKeys_assoc [of "refAlleleBasecallErrorPhredProbs a" "refAlleleBasecallErrorPhredProbs b"
      "refAlleleBasecallErrorPhredProbs c"]
  by (simp add: wfObservationData_def ObservationData_merge_fields)

lemma ErrorData_merge_fields:
  "BasecallErrorData_merge this input =
     \<lparr>counts = BasecallErrorContextObservationData_merge (counts this) (counts input),
      excludedRegionSkipped = excludedRegionSkipped this + excludedRegionSkipped input,
      depthSkipped = depthSkipped this + depthSkipped input,
      emptySkipped = emptySkipped this + emptySkipped input,
      noiseSkipped = noiseSkipped this + noiseSkipped input\<rparr>"
  by (cases this) (simp add: BasecallErrorData_merge_def)

lemma ErrorData_merge_wf:
  "wfObservationData (counts a) \<Longrightarrow> wfObservationData (counts (BasecallErrorData_merge a b))"
  by (simp add: ErrorData_merge_fields ObservationData_merge_wf)

lemma ErrorData_merge_commute:
  assumes "wfObservationData (counts a)" "wfObservationData (counts b)"
  shows "BasecallErrorData_merge a b = BasecallErrorData_merge b a"
  using ObservationData_merge_commute [OF assms]
  by (simp add: ErrorData_merge_fields add.commute)

lemma ErrorData_merge_assoc:
  assumes "wfObservationData (counts a)" "wfObservationData (counts b)" "wfObservationData (counts c)"
  shows "BasecallErrorData_merge (BasecallErrorData_merge a b) c
         = BasecallErrorData_merge a (BasecallErrorData_merge b c)"
  using ObservationData_merge_assoc [OF assms]
  by (simp add: ErrorData_merge_fields add.assoc)

lemma wfCounts_wfMap: "wfCounts m \<longleftrightarrow> wfMap (\<lambda>d. wfObservationData (counts d)) m"
  by (simp add: wfCounts_def wfMap_def)

text \<open>
  C1. On well-formed aggregator states \<open>merge\<close> is associative and commutative, and it
  keeps states well-formed. The merged state has the union of the contexts: a context of
  one side only keeps its data, a context of both sides has the merged data, in which the
  occurrence count of every pattern, the count of every reference quality level and the four
  skip counters are the sums of those of the two sides, an absent key counting as zero.
\<close>

theorem BasecallErrorCounts_merge_assoc_comm:
  assumes "wfCounts A" and "wfCounts B" and "wfCounts C"
  shows "BasecallErrorCounts_merge (BasecallErrorCounts_merge A B) C
           = BasecallErrorCounts_merge A (BasecallErrorCounts_merge B C)
       \<and> BasecallErrorCounts_merge A B = BasecallErrorCounts_merge B A
       \<and> wfCounts (BasecallErrorCounts_merge A B)
       \<and> map_of (BasecallErrorCounts_merge A B) context
           = (case map_of B context of
                None \<Rightarrow> map_of A context
              | Some b \<Rightarrow> (case map_of A context of
                             None \<Rightarrow> Some b
                           | Some a \<Rightarrow> Some (BasecallErrorData_merge a b)))
       \<and> (wfObservationData (counts y) \<longrightarrow>
            countOf (data (counts (BasecallErrorData_merge x y))) pattern
              = countOf (data (counts x)) pattern + countOf (data (counts y)) pattern
          \<and> countOf (refAlleleBasecallErrorPhredProbs (counts (BasecallErrorData_merge x y))) qual
              = countOf (refAlleleBasecallErrorPhredProbs (counts x)) qual
                + countOf (refAlleleBasecallErrorPhredProbs (counts y)) qual
          \<and> excludedRegionSkipped (BasecallErrorData_merge x y)
              = excludedRegionSkipped x + excludedRegionSkipped y
          \<and> depthSkipped (BasecallErrorData_merge x y) = depthSkipped x + depthSkipped y
          \<and> emptySkipped (BasecallErrorData_merge x y) = emptySkipped x + emptySkipped y
          \<and> noiseSkipped (BasecallErrorData_merge x y) = noiseSkipped x + noiseSkipped y)"
proof -
  let ?P = "\<lambda>d :: 'b BasecallErrorData. wfObservationData (counts d)"
  have a: "wfMap ?P A" and b: "wfMap ?P B" and c: "wfMap ?P C"
    using assms by (simp_all add: wfCounts_wfMap)
  have assoc: "mergeWith BasecallErrorData_merge (mergeWith BasecallErrorData_merge A B) C
               = mergeWith BasecallErrorData_merge A (mergeWith BasecallErrorData_merge B C)"
    by (rule mergeWith_assoc [where P = ?P, OF a b c])
       (simp_all add: ErrorData_merge_wf ErrorData_merge_assoc)
  have comm: "mergeWith BasecallErrorData_merge A B = mergeWith BasecallErrorData_merge B A"
    by (rule mergeWith_commute [where P = ?P, OF a b]) (simp add: ErrorData_merge_commute)
  have wf: "wfMap ?P (mergeWith BasecallErrorData_merge A B)"
    by (rule wfMap_mergeWith [OF a b]) (simp add: ErrorData_merge_wf)
  have look: "map_of (mergeWith BasecallErrorData_merge A B) context
              = combine BasecallErrorData_merge (map_of A context) (map_of B context)"
    using b by (simp add: map_of_mergeWith wfMap_def keysOrdered_distinct)
  have sums: "wfObservationData (counts y) \<Longrightarrow>
            countOf (data (counts (BasecallErrorData_merge x y))) pattern
              = countOf (data (counts x)) pattern + countOf (data (counts y)) pattern
          \<and> countOf (refAlleleBasecallErrorPhredProbs (counts (BasecallErrorData_merge x y))) qual
              = countOf (refAlleleBasecallErrorPhredProbs (counts x)) qual
                + countOf (refAlleleBasecallErrorPhredProbs (counts y)) qual
          \<and> excludedRegionSkipped (BasecallErrorData_merge x y)
              = excludedRegionSkipped x + excludedRegionSkipped y
          \<and> depthSkipped (BasecallErrorData_merge x y) = depthSkipped x + depthSkipped y
          \<and> emptySkipped (BasecallErrorData_merge x y) = emptySkipped x + emptySkipped y
          \<and> noiseSkipped (BasecallErrorData_merge x y) = noiseSkipped x + noiseSkipped y"
    by (simp add: ErrorData_merge_fields ObservationData_merge_fields countOf_mergeMapKeys
        wfObservationData_def)
  show ?thesis
    using assoc comm wf look sums
    by (simp add: BasecallErrorCounts_merge_mergeWith wfCounts_wfMap combine_def)
qed

definition exampleData :: "64 word \<Rightarrow> 64 word \<Rightarrow> 64 word \<Rightarrow> nat BasecallErrorData" where
  "exampleData n r s =
     \<lparr>counts = \<lparr>data = [(5, n)], refAlleleBasecallErrorPhredProbs = [(30, r)]\<rparr>,
      excludedRegionSkipped = s, depthSkipped = 0, emptySkipped = 1, noiseSkipped = 0\<rparr>"

lemma exampleData_merge:
  "BasecallErrorData_merge (exampleData n r s) (exampleData n' r' s')
   = (exampleData (n + n') (r + r') (s + s'))\<lparr>emptySkipped := 2\<rparr>"
  by (simp add: exampleData_def BasecallErrorData_merge_def
      BasecallErrorContextObservationData_merge_def mergeMapKeys_def)

theorem BasecallErrorCounts_merge_assoc_comm_witness:
  "wfCounts [(1 :: nat, exampleData 2 7 1)]
   \<and> wfCounts [(1 :: nat, exampleData 3 1 0), (2, exampleData 4 4 4)]
   \<and> wfCounts [(2 :: nat, exampleData 1 1 1)]
   \<and> BasecallErrorCounts_merge [(1 :: nat, exampleData 2 7 1)]
        [(1, exampleData 3 1 0), (2, exampleData 4 4 4)]
      = [(1, (exampleData 5 8 1)\<lparr>emptySkipped := 2\<rparr>), (2, exampleData 4 4 4)]
   \<and> BasecallErrorCounts_merge
        (BasecallErrorCounts_merge [(1 :: nat, exampleData 2 7 1)]
           [(1, exampleData 3 1 0), (2, exampleData 4 4 4)])
        [(2, exampleData 1 1 1)]
      = BasecallErrorCounts_merge [(1 :: nat, exampleData 2 7 1)]
          (BasecallErrorCounts_merge [(1, exampleData 3 1 0), (2, exampleData 4 4 4)]
             [(2, exampleData 1 1 1)])
   \<and> BasecallErrorCounts_merge [(1 :: nat, exampleData 2 7 1)]
        [(1, exampleData 3 1 0), (2, exampleData 4 4 4)]
      = BasecallErrorCounts_merge [(1, exampleData 3 1 0), (2, exampleData 4 4 4)]
          [(1 :: nat, exampleData 2 7 1)]"
proof -
  have w: "wfObservationData (counts (exampleData n r s :: nat BasecallErrorData))" for n r s
    by (simp add: exampleData_def wfObservationData_def keysOrdered_def)
  have a: "wfCounts [(1 :: nat, exampleData 2 7 1)]"
    and b: "wfCounts [(1 :: nat, exampleData 3 1 0), (2, exampleData 4 4 4)]"
    and c: "wfCounts [(2 :: nat, exampleData 1 1 1)]"
    by (simp_all add: wfCounts_def keysOrdered_def w)
  have v: "BasecallErrorCounts_merge [(1 :: nat, exampleData 2 7 1)]
        [(1, exampleData 3 1 0), (2, exampleData 4 4 4)]
      = [(1, (exampleData 5 8 1)\<lparr>emptySkipped := 2\<rparr>), (2, exampleData 4 4 4)]"
    by (simp add: BasecallErrorCounts_merge_def exampleData_merge)
  note t = BasecallErrorCounts_merge_assoc_comm [OF a b c, of 1 "exampleData 0 0 0" "exampleData 0 0 0" 0 0]
  show ?thesis
    by (intro conjI a b c v t [THEN conjunct1] t [THEN conjunct2, THEN conjunct1])
qed

end
